theory Spec2Isabelle
  imports Complex_Main
begin

section \<open>Fuzzy pooling on feature maps\<close>

text \<open>
  A shallow embedding of the notebook \<^verbatim>\<open>Codes/Fuzzy_Pooling_Updated_MNIST_Dataset.ipynb\<close>:
  the plain \<^verbatim>\<open>FuzzyPoolingLayer\<close>, the \<^verbatim>\<open>FuzzyPoolingLayer\<close> with RegP,
  \<^verbatim>\<open>FuzzyCNNWithRegP\<close> and the body of \<^verbatim>\<open>train\<close>.

  Tensor entries are idealised: a finite floating-point number is a real number, and
  rounding, overflow and underflow are not modelled. A value that is not a finite number
  (the NaN that \<^verbatim>\<open>torch\<close> returns for \<open>0 / 0\<close>) is \<open>None\<close>; every arithmetic
  operation on it gives \<open>None\<close> again. Input feature maps hold finite numbers.

  What holds or fails through rounding alone is therefore outside this model. In
  particular the sum of memberships plus \<^verbatim>\<open>1e-8\<close> is an exact sum here, while in
  \<^verbatim>\<open>float32\<close> the sum \<open>4 + 1e-8\<close> rounds to \<open>4\<close>: whether a constant window is pooled to
  its constant exactly is a question about that rounding, and nothing below decides it.
\<close>

subsection \<open>Errors, values and tensors\<close>

datatype error = ZeroDivisionError | IndexError | AttributeError

type_synonym fval = "real option"

definition fadd :: "fval \<Rightarrow> fval \<Rightarrow> fval" where
  "fadd a b = (case a of None \<Rightarrow> None | Some x \<Rightarrow> (case b of None \<Rightarrow> None | Some y \<Rightarrow> Some (x + y)))"

definition fmul :: "fval \<Rightarrow> fval \<Rightarrow> fval" where
  "fmul a b = (case a of None \<Rightarrow> None | Some x \<Rightarrow> (case b of None \<Rightarrow> None | Some y \<Rightarrow> Some (x * y)))"

text \<open>
  A 4-dimensional tensor: its size \<^verbatim>\<open>(batch_size, channels, height, width)\<close> and its
  entries by index. Every read and write below states its index range.
\<close>

record 'a tensor =
  batch_size :: nat
  channels :: nat
  height :: nat
  width :: nat
  elem :: "nat \<Rightarrow> nat \<Rightarrow> nat \<Rightarrow> nat \<Rightarrow> 'a"

text \<open>\<^verbatim>\<open>torch.zeros((b, c, h, w))\<close>.\<close>

definition zeros :: "nat \<Rightarrow> nat \<Rightarrow> nat \<Rightarrow> nat \<Rightarrow> fval tensor" where
  "zeros b c h w =
     \<lparr>batch_size = b, channels = c, height = h, width = w, elem = (\<lambda>_ _ _ _. Some 0)\<rparr>"

text \<open>
  \<^verbatim>\<open>pooled_output[:, :, oi, oj] = v\<close>, where \<open>v\<close> has one entry for each batch item and
  channel. An index outside the tensor raises \<^verbatim>\<open>IndexError\<close>.
\<close>

definition assign :: "fval tensor \<Rightarrow> nat \<Rightarrow> nat \<Rightarrow> (nat \<Rightarrow> nat \<Rightarrow> fval) \<Rightarrow> error + fval tensor" where
  "assign out oi oj v =
     (if oi < height out \<and> oj < width out
      then Inr (out\<lparr>elem := (\<lambda>b c r q.
                  if b < batch_size out \<and> c < channels out \<and> r = oi \<and> q = oj
                  then v b c else elem out b c r q)\<rparr>)
      else Inl IndexError)"

text \<open>
  \<^verbatim>\<open>range(0, stop, step)\<close> for a positive step: the multiples of \<open>step\<close> below \<open>stop\<close>.
  (Both layers divide by \<^verbatim>\<open>pool_size\<close> before they reach a loop, so a zero step never
  gets here.)
\<close>

definition range_step :: "nat \<Rightarrow> nat \<Rightarrow> nat list" where
  "range_step stop step = map (\<lambda>k. k * step) [0 ..< (stop + step - 1) div step]"

text \<open>A \<^verbatim>\<open>for\<close> loop over a list whose body may raise: the first error ends the loop.\<close>

primrec for_each :: "'a list \<Rightarrow> ('a \<Rightarrow> 's \<Rightarrow> error + 's) \<Rightarrow> 's \<Rightarrow> error + 's" where
  "for_each [] body s = Inr s"
| "for_each (a # as) body s =
     (case body a s of Inl e \<Rightarrow> Inl e | Inr s' \<Rightarrow> for_each as body s')"

subsection \<open>One window of one (batch, channel) slice\<close>

text \<open>
  \<^verbatim>\<open>x[:, :, i:i + pool_size, j:j + pool_size]\<close> at batch item \<open>b\<close> and channel \<open>c\<close>, as a
  list of rows. A slice is cut off at the end of the tensor.
\<close>

definition window :: "real tensor \<Rightarrow> nat \<Rightarrow> nat \<Rightarrow> nat \<Rightarrow> nat \<Rightarrow> nat \<Rightarrow> real list list" where
  "window x pool_size i j b c =
     map (\<lambda>r. map (\<lambda>q. elem x b c r q) [j ..< min (j + pool_size) (width x)])
         [i ..< min (i + pool_size) (height x)]"

text \<open>\<^verbatim>\<open>.sum(dim=(2, 3))\<close> and the number of entries it adds.\<close>

definition sum23 :: "real list list \<Rightarrow> real" where
  "sum23 w = sum_list (map sum_list w)"

definition numel :: "real list list \<Rightarrow> nat" where
  "numel w = sum_list (map length w)"

text \<open>\<^verbatim>\<open>.mean(dim=(2, 3))\<close>: the mean of no entries is NaN.\<close>

definition mean23 :: "real list list \<Rightarrow> fval" where
  "mean23 w = (if numel w = 0 then None else Some (sum23 w / real (numel w)))"

text \<open>
  \<^verbatim>\<open>.std(dim=(2, 3))\<close>: the sample standard deviation (Bessel's correction, the default
  of \<^verbatim>\<open>torch.std\<close>), which divides by \<open>n - 1\<close> and is NaN for fewer than two entries.
\<close>

definition std23 :: "real list list \<Rightarrow> fval" where
  "std23 w =
     (case mean23 w of
        None \<Rightarrow> None
      | Some m \<Rightarrow>
          if numel w \<le> 1 then None
          else Some (sqrt (sum23 (map (map (\<lambda>x. (x - m)\<^sup>2)) w) / real (numel w - 1))))"

definition eps :: real where
  "eps = 1 / 100000000"

definition gaussian_membership :: "real \<Rightarrow> real \<Rightarrow> real \<Rightarrow> real" where
  "gaussian_membership x mean std = exp (- ((x - mean)\<^sup>2) / (2 * std\<^sup>2))"

text \<open>
  The membership map of a window: \<^verbatim>\<open>mean\<close>, \<^verbatim>\<open>std = window.std(...) + 1e-8\<close> and
  \<^verbatim>\<open>gmf = self.gaussian_membership(window, mean, std)\<close>. It is NaN throughout when the
  mean or the standard deviation is.
\<close>

definition gmf_slice :: "real list list \<Rightarrow> real list list option" where
  "gmf_slice w =
     (case mean23 w of
        None \<Rightarrow> None
      | Some mean \<Rightarrow>
          (case std23 w of
             None \<Rightarrow> None
           | Some s \<Rightarrow>
               (let std = s + eps
                in Some (map (map (\<lambda>x. gaussian_membership x mean std)) w))))"

text \<open>
  \<^verbatim>\<open>torch.max(t, dim)[0]\<close> and \<^verbatim>\<open>torch.min(t, dim)[0]\<close> along one line of entries.
  \<^verbatim>\<open>torch\<close> rejects a reduction over no entries; the layers never form one, and it
  has no value here.
\<close>

fun max_dim :: "real list \<Rightarrow> real option" where
  "max_dim [] = None"
| "max_dim (x # xs) = Some (fold max xs x)"

fun min_dim :: "real list \<Rightarrow> real option" where
  "min_dim [] = None"
| "min_dim (x # xs) = Some (fold min xs x)"

text \<open>\<^verbatim>\<open>torch.min(torch.max(gmf, dim=3)[0], dim=2)[0]\<close>: the least of the row maxima.\<close>

definition threshold_of :: "real list list \<Rightarrow> real option" where
  "threshold_of gmf =
     (case those (map max_dim gmf) of None \<Rightarrow> None | Some row_max \<Rightarrow> min_dim row_max)"

text \<open>
  The rest of the loop body for one slice, from the window and its membership map:
  \<^verbatim>\<open>dominant_features = window * (gmf >= threshold).float()\<close>,
  \<^verbatim>\<open>weights = gmf / (gmf.sum(dim=(2, 3), keepdim=True) + 1e-8)\<close> and
  \<^verbatim>\<open>pooled_value = (dominant_features * weights).sum(dim=(2, 3))\<close>.
  The denominator of the weights is the exact sum of the memberships and \<open>eps\<close>.
\<close>

definition pooled_slice :: "real list list \<Rightarrow> real list list \<Rightarrow> fval" where
  "pooled_slice w gmf =
     (case threshold_of gmf of
        None \<Rightarrow> None
      | Some threshold \<Rightarrow>
          (let dominant_features =
                 map2 (map2 (\<lambda>x g. x * (if g \<ge> threshold then 1 else 0))) w gmf;
               weights = map (map (\<lambda>g. g / (sum23 gmf + eps))) gmf
           in Some (sum23 (map2 (map2 (*)) dominant_features weights))))"

definition pooled_value :: "real list list \<Rightarrow> fval" where
  "pooled_value w = (case gmf_slice w of None \<Rightarrow> None | Some gmf \<Rightarrow> pooled_slice w gmf)"

subsection \<open>The plain layer\<close>

record fuzzy_pooling_layer =
  pool_size :: nat

text \<open>
  \<^verbatim>\<open>FuzzyPoolingLayer.forward\<close>. \<^verbatim>\<open>height // self.pool_size\<close> raises
  \<^verbatim>\<open>ZeroDivisionError\<close> for a zero pool size. Each tensor operation of the loop body
  works on every batch item and channel at once.
\<close>

definition forward :: "'m fuzzy_pooling_layer_scheme \<Rightarrow> real tensor \<Rightarrow> error + fval tensor" where
  "forward self x =
     (if pool_size self = 0 then Inl ZeroDivisionError
      else
        (let output_height = height x div pool_size self;
             output_width = width x div pool_size self;
             pooled_output = zeros (batch_size x) (channels x) output_height output_width
         in for_each (range_step (height x) (pool_size self)) (\<lambda>i.
              for_each (range_step (width x) (pool_size self)) (\<lambda>j out.
                assign out (i div pool_size self) (j div pool_size self)
                  (\<lambda>b c. pooled_value (window x (pool_size self) i j b c))))
              pooled_output))"

subsection \<open>The layer with RegP\<close>

record fuzzy_pooling_layer_regp = fuzzy_pooling_layer +
  reg_lambda :: real
  regp_loss :: "fval option"

text \<open>
  The attribute \<^verbatim>\<open>regp_loss\<close> does not exist before the first forward pass: it is
  \<open>None\<close> until then.

  \<^verbatim>\<open>regp_total\<close> starts as the Python integer \<open>0\<close> and becomes a tensor with one entry
  at the first \<^verbatim>\<open>+=\<close>. Dividing a Python integer by zero raises; dividing a tensor by
  zero does not, and gives a value that is not a finite number.
\<close>

datatype pynum = PyInt int | Scalar fval

fun py_add :: "pynum \<Rightarrow> fval \<Rightarrow> pynum" where
  "py_add (PyInt n) v = Scalar (fadd (Some (of_int n)) v)"
| "py_add (Scalar a) v = Scalar (fadd a v)"

fun py_div :: "pynum \<Rightarrow> nat \<Rightarrow> error + fval" where
  "py_div (PyInt n) d =
     (if d = 0 then Inl ZeroDivisionError else Inr (Some (of_int n / of_nat d)))"
| "py_div (Scalar a) d =
     Inr (case a of None \<Rightarrow> None | Some y \<Rightarrow> if d = 0 then None else Some (y / of_nat d))"

text \<open>The number that a value of \<^verbatim>\<open>regp_total\<close> stands for.\<close>

fun pyval :: "pynum \<Rightarrow> fval" where
  "pyval (PyInt n) = Some (of_int n)"
| "pyval (Scalar a) = a"

text \<open>\<^verbatim>\<open>.mean()\<close> over all entries: NaN for no entries, and NaN if an entry is.\<close>

definition mean_all :: "fval list \<Rightarrow> fval" where
  "mean_all vs =
     (case those vs of
        None \<Rightarrow> None
      | Some ys \<Rightarrow> if ys = [] then None else Some (sum_list ys / real (length ys)))"

text \<open>
  \<^verbatim>\<open>regularization_penalty\<close>: \<^verbatim>\<open>penalty = torch.sum(gmf ** 2, dim=(2, 3))\<close> has one
  entry for each of the \<open>B\<close> batch items and \<open>C\<close> channels of \<open>gmf\<close>; the result is
  \<^verbatim>\<open>self.reg_lambda * penalty.mean()\<close>.
\<close>

definition regularization_penalty ::
    "'m fuzzy_pooling_layer_regp_scheme \<Rightarrow> nat \<Rightarrow> nat \<Rightarrow> (nat \<Rightarrow> nat \<Rightarrow> real list list option) \<Rightarrow> fval" where
  "regularization_penalty self B C gmf =
     (let penalty = (\<lambda>b c. map_option (\<lambda>g. sum23 (map (map (\<lambda>m. m\<^sup>2)) g)) (gmf b c))
      in fmul (Some (reg_lambda self))
           (mean_all (concat (map (\<lambda>b. map (\<lambda>c. penalty b c) [0 ..< C]) [0 ..< B]))))"

text \<open>
  The entry of \<^verbatim>\<open>penalty\<close> for one slice, as a number: the sum of the squared memberships
  of its window (0 where the membership map is NaN).
\<close>

definition membership_sq_sum :: "real list list \<Rightarrow> real" where
  "membership_sq_sum w =
     (case gmf_slice w of None \<Rightarrow> 0 | Some g \<Rightarrow> sum23 (map (map (\<lambda>m. m\<^sup>2)) g))"

text \<open>
  \<^verbatim>\<open>FuzzyPoolingLayer.forward\<close> of the RegP class. It returns the layer too, since it
  stores \<^verbatim>\<open>self.regp_loss\<close>; an error leaves the layer as it was.
\<close>

definition forward_regp ::
    "'m fuzzy_pooling_layer_regp_scheme \<Rightarrow> real tensor \<Rightarrow>
       error + ('m fuzzy_pooling_layer_regp_scheme \<times> fval tensor)" where
  "forward_regp self x =
     (if pool_size self = 0 then Inl ZeroDivisionError
      else
        (let output_height = height x div pool_size self;
             output_width = width x div pool_size self;
             pooled_output = zeros (batch_size x) (channels x) output_height output_width;
             regp_total = PyInt 0
         in case
              for_each (range_step (height x) (pool_size self)) (\<lambda>i.
                for_each (range_step (width x) (pool_size self)) (\<lambda>j (out, regp_total).
                  (let gmf = (\<lambda>b c. gmf_slice (window x (pool_size self) i j b c));
                       regp_total' = py_add regp_total
                                  (regularization_penalty self (batch_size x) (channels x) gmf)
                   in case assign out (i div pool_size self) (j div pool_size self)
                             (\<lambda>b c. case gmf b c of
                                       None \<Rightarrow> None
                                     | Some g \<Rightarrow>
                                         pooled_slice (window x (pool_size self) i j b c) g)
                      of Inl e \<Rightarrow> Inl e
                       | Inr out' \<Rightarrow> Inr (out', regp_total'))))
                (pooled_output, regp_total)
            of Inl e \<Rightarrow> Inl e
             | Inr (out, regp_total) \<Rightarrow>
                 (case py_div regp_total (batch_size x * channels x) of
                    Inl e \<Rightarrow> Inl e
                  | Inr loss \<Rightarrow> Inr (self\<lparr>regp_loss := Some loss\<rparr>, out))))"

subsection \<open>The network with RegP and the training step\<close>

text \<open>
  \<^verbatim>\<open>FuzzyCNNWithRegP\<close>. The convolution and the linear layer belong to \<^verbatim>\<open>torch\<close>;
  they are the functions \<open>conv1\<close> (from a batch of images to a feature map) and \<open>fc1\<close>
  (from the flattened pooled map to the class scores).
\<close>

record ('i, 'o) fuzzy_cnn_with_regp =
  conv1 :: "'i \<Rightarrow> real tensor"
  fuzzy_pool :: fuzzy_pooling_layer_regp
  fc1 :: "fval tensor \<Rightarrow> 'o"

definition relu :: "real tensor \<Rightarrow> real tensor" where
  "relu t = t\<lparr>elem := (\<lambda>b c r q. max 0 (elem t b c r q))\<rparr>"

definition cnn_forward ::
    "('i, 'o) fuzzy_cnn_with_regp \<Rightarrow> 'i \<Rightarrow> error + (('i, 'o) fuzzy_cnn_with_regp \<times> 'o)" where
  "cnn_forward model x =
     (case forward_regp (fuzzy_pool model) (relu (conv1 model x)) of
        Inl e \<Rightarrow> Inl e
      | Inr (pool', y) \<Rightarrow> Inr (model\<lparr>fuzzy_pool := pool'\<rparr>, fc1 model y))"

definition get_regp_loss :: "('i, 'o) fuzzy_cnn_with_regp \<Rightarrow> error + fval" where
  "get_regp_loss model =
     (case regp_loss (fuzzy_pool model) of None \<Rightarrow> Inl AttributeError | Some l \<Rightarrow> Inr l)"

text \<open>
  The body of the batch loop of \<^verbatim>\<open>train\<close>, up to the optimizer step:
  \<^verbatim>\<open>outputs = model(images)\<close>, \<^verbatim>\<open>loss = criterion(outputs, labels)\<close>,
  \<^verbatim>\<open>optimizer.zero_grad()\<close>, \<^verbatim>\<open>loss.backward()\<close>, \<^verbatim>\<open>optimizer.step()\<close>.
  The criterion and the optimizer are arguments of \<^verbatim>\<open>train\<close>; \<open>optimizer\<close> is the
  effect of the last three calls on the model, given the loss they work on. The result
  is the model after the step together with that loss.
\<close>

definition train_batch ::
    "('o \<Rightarrow> 'l \<Rightarrow> fval) \<Rightarrow> (('i, 'o) fuzzy_cnn_with_regp \<Rightarrow> fval \<Rightarrow> ('i, 'o) fuzzy_cnn_with_regp) \<Rightarrow>
     ('i, 'o) fuzzy_cnn_with_regp \<Rightarrow> 'i \<times> 'l \<Rightarrow> error + (('i, 'o) fuzzy_cnn_with_regp \<times> fval)" where
  "train_batch criterion optimizer model batch =
     (case batch of (images, labels) \<Rightarrow>
        (case cnn_forward model images of
           Inl e \<Rightarrow> Inl e
         | Inr (model', outputs) \<Rightarrow>
             (let loss = criterion outputs labels
              in Inr (optimizer model' loss, loss))))"

subsection \<open>The reference computation of the specification\<close>

text \<open>
  The window of output position \<open>(oi, oj)\<close>: the \<open>pool_size \<times> pool_size\<close> block with
  stride \<open>pool_size\<close>.
\<close>

definition spec_window :: "real tensor \<Rightarrow> nat \<Rightarrow> nat \<Rightarrow> nat \<Rightarrow> nat \<Rightarrow> nat \<Rightarrow> real list list" where
  "spec_window x p b c oi oj =
     map (\<lambda>dr. map (\<lambda>dq. elem x b c (oi * p + dr) (oj * p + dq)) [0 ..< p]) [0 ..< p]"

text \<open>
  Mean and standard deviation over the entries of a window. The specification names them
  only; the standard deviation is the sample one, as in the notebook.
\<close>

definition spec_mean :: "real list \<Rightarrow> fval" where
  "spec_mean xs = (if xs = [] then None else Some (sum_list xs / real (length xs)))"

definition spec_std :: "real list \<Rightarrow> fval" where
  "spec_std xs =
     (if length xs < 2 then None
      else Some (sqrt ((\<Sum>x\<leftarrow>xs. (x - sum_list xs / real (length xs))\<^sup>2) / real (length xs - 1))))"

text \<open>
  The per-window computation in the words of the specification: membership
  \<open>m(x) = exp (- (x - mean)\<^sup>2 / (2 std\<^sup>2))\<close> with \<open>std\<close> the window's standard deviation
  plus epsilon; the threshold is the minimum over the rows of the maximum of \<open>m\<close> along
  each row; an entry is dominant iff its membership is at least the threshold; the weight
  of an entry is its membership over the sum of all memberships plus epsilon; the output
  is the sum of dominant-masked entry times weight.
\<close>

definition spec_pool :: "real list list \<Rightarrow> fval" where
  "spec_pool w =
     (case spec_mean (concat w) of
        None \<Rightarrow> None
      | Some mean \<Rightarrow>
          (case spec_std (concat w) of
             None \<Rightarrow> None
           | Some s \<Rightarrow>
               if w = [] \<or> [] \<in> set w then None
               else
                 (let std = s + eps;
                      m = (\<lambda>x. exp (- (x - mean)\<^sup>2 / (2 * std\<^sup>2)));
                      threshold = Min ((\<lambda>row. Max (m ` set row)) ` set w);
                      dominant = (\<lambda>x. m x \<ge> threshold);
                      weight = (\<lambda>x. m x / ((\<Sum>y\<leftarrow>concat w. m y) + eps))
                  in Some (\<Sum>x\<leftarrow>concat w. (if dominant x then x else 0) * weight x))))"

text \<open>
  The regularization scalar in the words of the specification: the sum of the squared
  memberships of a window, added up over all windows, batch items and channels, scaled by
  \<open>reg_lambda\<close> and divided by batch size times channel count.
\<close>

definition spec_membership_sq_sum :: "real list list \<Rightarrow> fval" where
  "spec_membership_sq_sum w =
     (case spec_mean (concat w) of
        None \<Rightarrow> None
      | Some mean \<Rightarrow>
          (case spec_std (concat w) of
             None \<Rightarrow> None
           | Some s \<Rightarrow> Some (\<Sum>x\<leftarrow>concat w. (exp (- (x - mean)\<^sup>2 / (2 * (s + eps)\<^sup>2)))\<^sup>2)))"

definition spec_regp :: "real \<Rightarrow> nat \<Rightarrow> real tensor \<Rightarrow> fval" where
  "spec_regp lam p x =
     (case those (concat (map (\<lambda>oi. concat (map (\<lambda>oj. concat (map (\<lambda>b. map (\<lambda>c.
               spec_membership_sq_sum (spec_window x p b c oi oj))
             [0 ..< channels x]) [0 ..< batch_size x]))
             [0 ..< width x div p])) [0 ..< height x div p])) of
        None \<Rightarrow> None
      | Some qs \<Rightarrow>
          if batch_size x * channels x = 0 then None
          else Some (lam * sum_list qs / real (batch_size x * channels x)))"

subsection \<open>Example inputs\<close>

text \<open>
  Feature maps: \<open>x_small\<close> of size \<open>(1, 1, 2, 2)\<close> with the window \<open>[[1, 1], [1, 3]]\<close>;
  \<open>x_grid\<close> of size \<open>(2, 3, 4, 6)\<close>, whose entries differ from place to place; \<open>x_pair\<close>
  of size \<open>(2, 1, 2, 2)\<close>, all ones; \<open>x_odd\<close> of size
  \<open>(1, 1, 2, 3)\<close>, whose width is not a multiple of 2; and the empty \<open>x_empty\<close> of size
  \<open>(0, 1, 0, 0)\<close>. Layers: the plain layer with pool size 2 (the default) and with pool size
  1, and the RegP layer as \<^verbatim>\<open>FuzzyCNNWithRegP\<close> builds it,
  \<^verbatim>\<open>FuzzyPoolingLayer(pool_size=2, reg_lambda=0.01)\<close>. In \<open>cnn_example\<close> the convolution
  passes its input on and the linear layer passes the pooled map on.
\<close>

definition x_small :: "real tensor" where
  "x_small =
     \<lparr>batch_size = 1, channels = 1, height = 2, width = 2,
      elem = (\<lambda>b c r q. if r = 1 \<and> q = 1 then 3 else 1)\<rparr>"

definition x_grid :: "real tensor" where
  "x_grid =
     \<lparr>batch_size = 2, channels = 3, height = 4, width = 6,
      elem = (\<lambda>b c r q. real (b + 2 * c + r * q))\<rparr>"

definition pool2 :: fuzzy_pooling_layer where
  "pool2 = \<lparr>pool_size = 2\<rparr>"

definition pool1 :: fuzzy_pooling_layer where
  "pool1 = \<lparr>pool_size = 1\<rparr>"

definition x_odd :: "real tensor" where
  "x_odd =
     \<lparr>batch_size = 1, channels = 1, height = 2, width = 3, elem = (\<lambda>b c r q. real (r + q))\<rparr>"

definition x_empty :: "real tensor" where
  "x_empty =
     \<lparr>batch_size = 0, channels = 1, height = 0, width = 0, elem = (\<lambda>b c r q. 0)\<rparr>"

definition x_pair :: "real tensor" where
  "x_pair =
     \<lparr>batch_size = 2, channels = 1, height = 2, width = 2, elem = (\<lambda>b c r q. 1)\<rparr>"

definition pool2_regp :: fuzzy_pooling_layer_regp where
  "pool2_regp = \<lparr>pool_size = 2, reg_lambda = 1 / 100, regp_loss = None\<rparr>"

definition cnn_example :: "(real tensor, fval tensor) fuzzy_cnn_with_regp" where
  "cnn_example = \<lparr>conv1 = (\<lambda>images. images), fuzzy_pool = pool2_regp, fc1 = (\<lambda>y. y)\<rparr>"

section \<open>Properties\<close>

subsection \<open>The loops of the plain layer\<close>

lemma range_step_dvd:
  assumes "0 < p" "p dvd n"
  shows "range_step n p = map (\<lambda>k. k * p) [0 ..< n div p]"
proof -
  from assms obtain m where m: "n = p * m" by (auto simp: dvd_def)
  have "(p * m + p - 1) div p = m"
  proof -
    have "p * m + p - 1 = (p - 1) + m * p" using assms(1) by (simp add: algebra_simps)
    then have "(p * m + p - 1) div p = (p - 1) div p + m"
      using assms(1) by (metis div_mult_self1 less_numeral_extra(3) add.commute)
    then show ?thesis using assms(1) by simp
  qed
  then show ?thesis using assms(1) by (simp add: range_step_def m)
qed

lemma range_step_nonempty: "0 < p \<Longrightarrow> 0 < n \<Longrightarrow> range_step n p \<noteq> []"
proof -
  assume p: "0 < p" and n: "0 < n"
  then have "p \<le> n + p - 1" by simp
  then have "1 \<le> (n + p - 1) div p" using p by (simp add: Suc_le_eq div_greater_zero_iff)
  then show ?thesis by (auto simp: range_step_def)
qed

lemma elem_update_cong: "f = g \<Longrightarrow> out\<lparr>elem := f\<rparr> = out\<lparr>elem := g\<rparr>"
  by simp

lemma inner_loop:
  assumes "0 < p" "r < height out" "\<forall>k\<in>set ks. k < width out"
  shows "for_each (map (\<lambda>k. k * p) ks)
           (\<lambda>j out. assign out r (j div p) (V j)) out =
         Inr (out\<lparr>elem := (\<lambda>b c r' q.
                if b < batch_size out \<and> c < channels out \<and> r' = r \<and> q \<in> set ks
                then V (q * p) b c else elem out b c r' q)\<rparr>)"
  using assms
proof (induction ks arbitrary: out)
  case Nil
  then show ?case by simp
next
  case (Cons k ks)
  let ?out1 = "out\<lparr>elem := (\<lambda>b c r' q.
                if b < batch_size out \<and> c < channels out \<and> r' = r \<and> q = k
                then V (k * p) b c else elem out b c r' q)\<rparr>"
  have a: "assign out r (k * p div p) (V (k * p)) = Inr ?out1"
    using Cons.prems by (simp add: assign_def)
  have ih: "for_each (map (\<lambda>k. k * p) ks) (\<lambda>j out. assign out r (j div p) (V j)) ?out1 =
         Inr (?out1\<lparr>elem := (\<lambda>b c r' q.
                if b < batch_size ?out1 \<and> c < channels ?out1 \<and> r' = r \<and> q \<in> set ks
                then V (q * p) b c else elem ?out1 b c r' q)\<rparr>)"
    using Cons.prems by (intro Cons.IH) simp_all
  have "for_each (map (\<lambda>k. k * p) (k # ks)) (\<lambda>j out. assign out r (j div p) (V j)) out =
        for_each (map (\<lambda>k. k * p) ks) (\<lambda>j out. assign out r (j div p) (V j)) ?out1"
    using a Cons.prems(1) by simp
  also note ih
  also have "?out1\<lparr>elem := (\<lambda>b c r' q.
                if b < batch_size ?out1 \<and> c < channels ?out1 \<and> r' = r \<and> q \<in> set ks
                then V (q * p) b c else elem ?out1 b c r' q)\<rparr> =
        out\<lparr>elem := (\<lambda>b c r' q.
                if b < batch_size out \<and> c < channels out \<and> r' = r \<and> q \<in> set (k # ks)
                then V (q * p) b c else elem out b c r' q)\<rparr>"
    by (simp, intro elem_update_cong ext) auto
  finally show ?case .
qed

lemma outer_loop:
  assumes "0 < p" "\<forall>r\<in>set rs. r < height out" "\<forall>k\<in>set ks. k < width out"
  shows "for_each (map (\<lambda>k. k * p) rs) (\<lambda>i.
           for_each (map (\<lambda>k. k * p) ks) (\<lambda>j out. assign out (i div p) (j div p) (V i j))) out =
         Inr (out\<lparr>elem := (\<lambda>b c r q.
                if b < batch_size out \<and> c < channels out \<and> r \<in> set rs \<and> q \<in> set ks
                then V (r * p) (q * p) b c else elem out b c r q)\<rparr>)"
  using assms
proof (induction rs arbitrary: out)
  case Nil
  then show ?case by simp
next
  case (Cons r rs)
  let ?inner = "\<lambda>i. for_each (map (\<lambda>k. k * p) ks) (\<lambda>j out. assign out (i div p) (j div p) (V i j))"
  let ?out1 = "out\<lparr>elem := (\<lambda>b c r' q.
                if b < batch_size out \<and> c < channels out \<and> r' = r \<and> q \<in> set ks
                then V (r * p) (q * p) b c else elem out b c r' q)\<rparr>"
  have a: "?inner (r * p) out = Inr ?out1"
    using inner_loop[of p r out ks "V (r * p)"] Cons.prems by simp
  have ih: "for_each (map (\<lambda>k. k * p) rs) ?inner ?out1 =
         Inr (?out1\<lparr>elem := (\<lambda>b c r' q.
                if b < batch_size ?out1 \<and> c < channels ?out1 \<and> r' \<in> set rs \<and> q \<in> set ks
                then V (r' * p) (q * p) b c else elem ?out1 b c r' q)\<rparr>)"
    using Cons.prems by (intro Cons.IH) simp_all
  have "for_each (map (\<lambda>k. k * p) (r # rs)) ?inner out = for_each (map (\<lambda>k. k * p) rs) ?inner ?out1"
    using a by simp
  also note ih
  also have "?out1\<lparr>elem := (\<lambda>b c r' q.
                if b < batch_size ?out1 \<and> c < channels ?out1 \<and> r' \<in> set rs \<and> q \<in> set ks
                then V (r' * p) (q * p) b c else elem ?out1 b c r' q)\<rparr> =
        out\<lparr>elem := (\<lambda>b c r' q.
                if b < batch_size out \<and> c < channels out \<and> r' \<in> set (r # rs) \<and> q \<in> set ks
                then V (r' * p) (q * p) b c else elem out b c r' q)\<rparr>"
    by (simp, intro elem_update_cong ext) auto
  finally show ?case .
qed

lemma forward_divisible:
  assumes "0 < pool_size self" "pool_size self dvd height x" "pool_size self dvd width x"
  shows "forward self x =
     Inr \<lparr>batch_size = batch_size x, channels = channels x,
          height = height x div pool_size self, width = width x div pool_size self,
          elem = (\<lambda>b c r q.
             if b < batch_size x \<and> c < channels x \<and>
                r < height x div pool_size self \<and> q < width x div pool_size self
             then pooled_value (window x (pool_size self) (r * pool_size self) (q * pool_size self) b c)
             else Some 0)\<rparr>"
proof -
  let ?p = "pool_size self"
  let ?z = "zeros (batch_size x) (channels x) (height x div ?p) (width x div ?p)"
  have "forward self x =
      for_each (map (\<lambda>k. k * ?p) [0 ..< height x div ?p]) (\<lambda>i.
        for_each (map (\<lambda>k. k * ?p) [0 ..< width x div ?p]) (\<lambda>j out.
          assign out (i div ?p) (j div ?p) (\<lambda>b c. pooled_value (window x ?p i j b c)))) ?z"
    using assms by (simp add: forward_def range_step_dvd)
  also have "\<dots> = Inr (?z\<lparr>elem := (\<lambda>b c r q.
                if b < batch_size ?z \<and> c < channels ?z \<and> r \<in> set [0 ..< height x div ?p]
                   \<and> q \<in> set [0 ..< width x div ?p]
                then pooled_value (window x ?p (r * ?p) (q * ?p) b c) else elem ?z b c r q)\<rparr>)"
    using assms(1) by (intro outer_loop) (simp_all add: zeros_def)
  also have "\<dots> = Inr \<lparr>batch_size = batch_size x, channels = channels x,
          height = height x div ?p, width = width x div ?p,
          elem = (\<lambda>b c r q.
             if b < batch_size x \<and> c < channels x \<and> r < height x div ?p \<and> q < width x div ?p
             then pooled_value (window x ?p (r * ?p) (q * ?p) b c)
             else Some 0)\<rparr>"
    by (simp add: zeros_def fun_eq_iff)
  finally show ?thesis .
qed

subsection \<open>One window\<close>

lemma upt_shift: "[n ..< n + m] = map (\<lambda>d. n + d) [0 ..< m]"
  by (induction m) simp_all

lemma window_complete:
  assumes "r < height x div p" "q < width x div p"
  shows "window x p (r * p) (q * p) b c = spec_window x p b c r q"
proof -
  have p: "0 < p" using assms(1) by (cases p) simp_all
  have "Suc r \<le> height x div p" using assms(1) by simp
  then have "Suc r * p \<le> height x" using p by (simp add: less_eq_div_iff_mult_less_eq)
  then have h: "min (r * p + p) (height x) = r * p + p" by simp
  have "Suc q \<le> width x div p" using assms(2) by simp
  then have "Suc q * p \<le> width x" using p by (simp add: less_eq_div_iff_mult_less_eq)
  then have w: "min (q * p + p) (width x) = q * p + p" by simp
  show ?thesis
    unfolding window_def spec_window_def h w
    by (simp add: upt_shift[of "r * p" p] upt_shift[of "q * p" p] comp_def)
qed

lemma sum23_concat: "sum23 w = sum_list (concat w)"
  unfolding sum23_def by (induction w) simp_all

lemma sum23_map_concat: "sum23 (map (map f) w) = (\<Sum>x\<leftarrow>concat w. f x)"
  unfolding sum23_def by (induction w) simp_all

lemma numel_concat: "numel w = length (concat w)"
  by (simp add: numel_def length_concat)

lemma mean23_spec: "mean23 w = spec_mean (concat w)"
  by (simp add: mean23_def spec_mean_def sum23_concat numel_concat)

lemma std23_spec: "std23 w = spec_std (concat w)"
proof (cases "concat w = []")
  case True
  then show ?thesis
    by (simp add: std23_def spec_std_def mean23_spec spec_mean_def del: concat_eq_Nil_conv)
next
  case False
  then show ?thesis
    by (simp add: std23_def spec_std_def mean23_spec spec_mean_def sum23_concat
        numel_concat map_concat[symmetric] not_less Suc_le_eq less_Suc_eq_le
        del: concat_eq_Nil_conv)
qed

lemma map2_map_self: "map2 h xs (map f xs) = map (\<lambda>x. h x (f x)) xs"
  by (induction xs) simp_all

lemma max_dim_map: "row \<noteq> [] \<Longrightarrow> max_dim (map f row) = Some (Max (f ` set row))"
  by (cases row) (simp_all add: Max.set_eq_fold[symmetric])

lemma min_dim_Min: "xs \<noteq> [] \<Longrightarrow> min_dim xs = Some (Min (set xs))"
  by (cases xs) (simp_all add: Min.set_eq_fold[symmetric])

lemma those_map_Some: "those (map (\<lambda>x. Some (g x)) xs) = Some (map g xs)"
  by (induction xs) simp_all

lemma those_None: "None \<in> set xs \<Longrightarrow> those xs = None"
  by (induction xs) (auto split: option.splits)

lemma threshold_of_gmf:
  assumes "w \<noteq> []" "[] \<notin> set w"
  shows "threshold_of (map (map f) w) = Some (Min ((\<lambda>row. Max (f ` set row)) ` set w))"
proof -
  have "\<And>row. row \<in> set w \<Longrightarrow> max_dim (map f row) = Some (Max (f ` set row))"
    using assms(2) by (intro max_dim_map) auto
  then have "map max_dim (map (map f) w) = map (\<lambda>row. Some (Max (f ` set row))) w"
    unfolding map_map comp_def by (intro map_cong) simp_all
  then have "those (map max_dim (map (map f) w)) = Some (map (\<lambda>row. Max (f ` set row)) w)"
    by (simp only: those_map_Some)
  then show ?thesis
    using assms(1) by (simp add: threshold_of_def min_dim_Min)
qed

lemma threshold_of_empty_row:
  assumes "[] \<in> set w"
  shows "threshold_of (map (map f) w) = None"
proof -
  have "None \<in> set (map max_dim (map (map f) w))"
    using assms by (force simp: image_iff)
  then show ?thesis by (simp add: threshold_of_def those_None)
qed

lemma pooled_slice_gmf:
  assumes "threshold_of (map (map f) w) = Some t"
  shows "pooled_slice w (map (map f) w) =
         Some (\<Sum>x\<leftarrow>concat w. x * (if f x \<ge> t then 1 else 0) * (f x / ((\<Sum>y\<leftarrow>concat w. f y) + eps)))"
proof -
  have "map2 (map2 (\<lambda>x g. x * (if g \<ge> t then 1 else 0))) w (map (map f) w)
        = map (map (\<lambda>x. x * (if f x \<ge> t then 1 else 0))) w"
    by (simp add: map2_map_self)
  moreover have "map2 (map2 (*)) (map (map (\<lambda>x. x * (if f x \<ge> t then 1 else 0))) w)
        (map (map (\<lambda>g. g / S)) (map (map f) w))
      = map (map (\<lambda>x. x * (if f x \<ge> t then 1 else 0) * (f x / S))) w" for S
    by (induction w) (simp_all add: zip_map_map zip_same_conv_map comp_def)
  ultimately show ?thesis
    using assms by (simp add: pooled_slice_def Let_def sum23_map_concat)
qed

lemma pooled_value_spec: "pooled_value w = spec_pool w"
proof (cases "spec_mean (concat w)")
  case None
  then show ?thesis by (simp add: pooled_value_def gmf_slice_def spec_pool_def mean23_spec)
next
  case (Some mean)
  note m = this
  show ?thesis
  proof (cases "spec_std (concat w)")
    case None
    then show ?thesis using m by (simp add: pooled_value_def gmf_slice_def spec_pool_def mean23_spec std23_spec)
  next
    case (Some s)
    note s = this
    let ?f = "\<lambda>x. gaussian_membership x mean (s + eps)"
    have g: "gmf_slice w = Some (map (map ?f) w)"
      using m s by (simp add: gmf_slice_def mean23_spec std23_spec)
    show ?thesis
    proof (cases "w = [] \<or> [] \<in> set w")
      case True
      have "w \<noteq> []" using m by (auto simp: spec_mean_def)
      with True have "[] \<in> set w" by simp
      then have "threshold_of (map (map ?f) w) = None" by (rule threshold_of_empty_row)
      then show ?thesis
        using True m s g by (simp add: pooled_value_def spec_pool_def pooled_slice_def)
    next
      case False
      then have t: "threshold_of (map (map ?f) w) = Some (Min ((\<lambda>row. Max (?f ` set row)) ` set w))"
        by (intro threshold_of_gmf) simp_all
      have "(\<Sum>x\<leftarrow>concat w. x * (if ?f x \<ge> Min ((\<lambda>row. Max (?f ` set row)) ` set w) then 1 else 0) * (?f x / ((\<Sum>y\<leftarrow>concat w. ?f y) + eps)))
          = (\<Sum>x\<leftarrow>concat w. (if ?f x \<ge> Min ((\<lambda>row. Max (?f ` set row)) ` set w) then x else 0) * (?f x / ((\<Sum>y\<leftarrow>concat w. ?f y) + eps)))"
        by (intro arg_cong[where f = sum_list] map_cong) simp_all
      then show ?thesis
        using False m s g pooled_slice_gmf[OF t]
        by (simp add: pooled_value_def spec_pool_def Let_def gaussian_membership_def)
    qed
  qed
qed

subsection \<open>Shape of the output\<close>

text \<open>
  C7. For an input of size \<open>(B, C, H, W)\<close> with \<open>H\<close> and \<open>W\<close> divisible by the pool size,
  the forward pass of the fuzzy pooling layer returns a tensor of size
  \<open>(B, C, H / pool_size, W / pool_size)\<close>, for every \<open>B\<close> and \<open>C\<close>.
\<close>

theorem forward_output_shape:
  assumes "0 < pool_size self" "pool_size self dvd height x" "pool_size self dvd width x"
  shows "\<exists>out. forward self x = Inr out \<and>
           batch_size out = batch_size x \<and> channels out = channels x \<and>
           height out = height x div pool_size self \<and>
           width out = width x div pool_size self"
  using forward_divisible[OF assms] by simp

theorem forward_output_shape_witness:
  "\<exists>out. forward pool2 x_grid = Inr out \<and>
         batch_size out = 2 \<and> channels out = 3 \<and> height out = 2 \<and> width out = 3"
  using forward_output_shape[of pool2 x_grid] by (simp add: pool2_def x_grid_def)

subsection \<open>The layer computes the reference value of each window\<close>

text \<open>
  C6. For every pooling window and every (batch, channel) slice, the output of the layer
  equals the reference per-window computation of the specification: Gaussian membership
  with the window's mean and its standard deviation plus epsilon, threshold the minimum
  over one axis of the maximum over the other, dominance by membership at least the
  threshold, weights the memberships over their sum plus epsilon, and output the sum of
  dominant-masked entry times weight.
\<close>

theorem forward_matches_reference:
  assumes "0 < pool_size self" "pool_size self dvd height x" "pool_size self dvd width x"
    and "b < batch_size x" "c < channels x"
    and "oi < height x div pool_size self" "oj < width x div pool_size self"
  shows "\<exists>out. forward self x = Inr out \<and>
           elem out b c oi oj = spec_pool (spec_window x (pool_size self) b c oi oj)"
  using forward_divisible[OF assms(1-3)] assms(4-7)
  by (simp add: window_complete pooled_value_spec)

theorem forward_matches_reference_witness:
  "\<exists>out. forward pool2 x_grid = Inr out \<and>
         elem out 1 2 1 2 = spec_pool (spec_window x_grid 2 1 2 1 2)"
  using forward_matches_reference[of pool2 x_grid 1 2 1 2] by (simp add: pool2_def x_grid_def)

subsection \<open>The value of a window\<close>

lemma eps_pos: "0 < eps"
  by (simp add: eps_def)

lemma gaussian_membership_pos: "0 < gaussian_membership x mean std"
  by (simp add: gaussian_membership_def)

lemma sum_list_divide: "(\<Sum>x\<leftarrow>xs. f x / (d::real)) = (\<Sum>x\<leftarrow>xs. f x) / d"
  by (induction xs) (simp_all add: add_divide_distrib)

lemma weighted_sum_bounds:
  fixes u :: "real \<Rightarrow> real"
  assumes "\<forall>x\<in>set xs. lo \<le> x \<and> x \<le> hi" "lo \<le> 0" "0 \<le> hi"
    and "\<forall>x\<in>set xs. 0 \<le> u x" "(\<Sum>x\<leftarrow>xs. u x) \<le> 1"
  shows "lo \<le> (\<Sum>x\<leftarrow>xs. x * u x) \<and> (\<Sum>x\<leftarrow>xs. x * u x) \<le> hi"
proof
  have nn: "0 \<le> (\<Sum>x\<leftarrow>xs. u x)"
    using assms(4) by (intro sum_list_nonneg) auto
  have "(\<Sum>x\<leftarrow>xs. x * u x) \<le> (\<Sum>x\<leftarrow>xs. hi * u x)"
    using assms(1,4) by (intro sum_list_mono mult_right_mono) auto
  also have "\<dots> = hi * (\<Sum>x\<leftarrow>xs. u x)"
    by (simp add: sum_list_const_mult)
  also have "\<dots> \<le> hi * 1"
    using assms(3,5) by (intro mult_left_mono) auto
  finally show "(\<Sum>x\<leftarrow>xs. x * u x) \<le> hi" by simp
  have "lo * 1 \<le> lo * (\<Sum>x\<leftarrow>xs. u x)"
    using assms(2,5) by (intro mult_left_mono_neg) auto
  also have "\<dots> = (\<Sum>x\<leftarrow>xs. lo * u x)"
    by (simp add: sum_list_const_mult)
  also have "\<dots> \<le> (\<Sum>x\<leftarrow>xs. x * u x)"
    using assms(1,4) by (intro sum_list_mono mult_right_mono) auto
  finally show "lo \<le> (\<Sum>x\<leftarrow>xs. x * u x)" by simp
qed

lemma std23_window:
  assumes "2 \<le> numel w"
  shows "\<exists>mean s. mean23 w = Some mean \<and> std23 w = Some s \<and> 0 \<le> s"
proof -
  have n: "numel w \<noteq> 0" "\<not> numel w \<le> 1" using assms by simp_all
  have "0 \<le> sum23 (map (map (\<lambda>x. (x - m)\<^sup>2)) w)" for m
    unfolding sum23_map_concat by (intro sum_list_nonneg) auto
  then have "0 \<le> sqrt (sum23 (map (map (\<lambda>x. (x - m)\<^sup>2)) w) / real (numel w - 1))" for m
    by simp
  then show ?thesis
    using n by (simp add: mean23_def std23_def)
qed

text \<open>The value of a window with at least two entries and no empty row.\<close>

lemma pooled_value_window:
  assumes "2 \<le> numel w" "[] \<notin> set w"
  shows "\<exists>mean s t. mean23 w = Some mean \<and> std23 w = Some s \<and> 0 \<le> s \<and>
           threshold_of (map (map (\<lambda>x. gaussian_membership x mean (s + eps))) w) = Some t \<and>
           pooled_value w =
             Some (\<Sum>x\<leftarrow>concat w.
                     x * (if gaussian_membership x mean (s + eps) \<ge> t then 1 else 0) *
                     (gaussian_membership x mean (s + eps) /
                       ((\<Sum>y\<leftarrow>concat w. gaussian_membership y mean (s + eps)) + eps)))"
proof -
  obtain mean s where ms: "mean23 w = Some mean" "std23 w = Some s" "0 \<le> s"
    using std23_window[OF assms(1)] by blast
  let ?f = "\<lambda>x. gaussian_membership x mean (s + eps)"
  have "w \<noteq> []" using assms(1) by (auto simp: numel_def)
  then have t: "threshold_of (map (map ?f) w) = Some (Min ((\<lambda>row. Max (?f ` set row)) ` set w))"
    using assms(2) by (intro threshold_of_gmf)
  have "pooled_value w = pooled_slice w (map (map ?f) w)"
    using ms by (simp add: pooled_value_def gmf_slice_def)
  with pooled_slice_gmf[OF t] ms t show ?thesis by simp
qed

lemma pooled_value_bounds:
  assumes "2 \<le> numel w" "[] \<notin> set w"
  shows "\<exists>v. pooled_value w = Some v \<and>
           min 0 (Min (set (concat w))) \<le> v \<and> v \<le> max 0 (Max (set (concat w)))"
proof -
  obtain mean s t where v: "pooled_value w =
             Some (\<Sum>x\<leftarrow>concat w.
                     x * (if gaussian_membership x mean (s + eps) \<ge> t then 1 else 0) *
                     (gaussian_membership x mean (s + eps) /
                       ((\<Sum>y\<leftarrow>concat w. gaussian_membership y mean (s + eps)) + eps)))"
    using pooled_value_window[OF assms] by blast
  let ?g = "\<lambda>x. gaussian_membership x mean (s + eps)"
  let ?S = "(\<Sum>y\<leftarrow>concat w. ?g y) + eps"
  let ?u = "\<lambda>x. (if ?g x \<ge> t then 1 else 0) * (?g x / ?S)"
  have Sg: "0 \<le> (\<Sum>y\<leftarrow>concat w. ?g y)"
    by (intro sum_list_nonneg) (auto simp: gaussian_membership_pos less_imp_le)
  then have S: "0 < ?S" using eps_pos by linarith
  have u0: "\<forall>x\<in>set (concat w). 0 \<le> ?u x"
    using S by (auto simp: gaussian_membership_pos less_imp_le)
  have "(\<Sum>x\<leftarrow>concat w. ?u x) \<le> (\<Sum>x\<leftarrow>concat w. ?g x / ?S)"
    using S by (intro sum_list_mono) (auto simp: gaussian_membership_pos less_imp_le)
  also have "\<dots> = (\<Sum>x\<leftarrow>concat w. ?g x) / ?S"
    by (rule sum_list_divide)
  also have "\<dots> \<le> 1"
    using S eps_pos by simp
  finally have u1: "(\<Sum>x\<leftarrow>concat w. ?u x) \<le> 1" .
  have fin: "finite (set (concat w))" by simp
  have rng: "\<forall>x\<in>set (concat w). min 0 (Min (set (concat w))) \<le> x \<and> x \<le> max 0 (Max (set (concat w)))"
    using Min_le[OF fin] Max_ge[OF fin] by (auto simp: min_le_iff_disj le_max_iff_disj)
  have "min 0 (Min (set (concat w))) \<le> (\<Sum>x\<leftarrow>concat w. x * ?u x) \<and>
        (\<Sum>x\<leftarrow>concat w. x * ?u x) \<le> max 0 (Max (set (concat w)))"
    using rng u0 u1 by (intro weighted_sum_bounds) simp_all
  moreover have "(\<Sum>x\<leftarrow>concat w. x * ?u x) =
     (\<Sum>x\<leftarrow>concat w. x * (if ?g x \<ge> t then 1 else 0) * (?g x / ?S))"
    by (simp add: mult.assoc)
  ultimately show ?thesis using v by simp
qed

lemma numel_spec_window: "numel (spec_window x p b c oi oj) = p * p"
  by (simp add: numel_def spec_window_def comp_def sum_list_triv)

lemma spec_window_rows: "0 < p \<Longrightarrow> [] \<notin> set (spec_window x p b c oi oj)"
  by (auto simp: spec_window_def)

lemma set_concat_spec_window:
  "set (concat (spec_window x p b c oi oj)) =
     {elem x b c (oi * p + dr) (oj * p + dq) | dr dq. dr < p \<and> dq < p}"
  unfolding spec_window_def by auto blast

lemma forward_value:
  assumes "0 < pool_size self" "pool_size self dvd height x" "pool_size self dvd width x"
    and "b < batch_size x" "c < channels x"
    and "oi < height x div pool_size self" "oj < width x div pool_size self"
  shows "\<exists>out. forward self x = Inr out \<and>
           elem out b c oi oj = pooled_value (spec_window x (pool_size self) b c oi oj)"
  using forward_divisible[OF assms(1-3)] assms(4-7) by (simp add: window_complete)

subsection \<open>Range of the pooled value\<close>

text \<open>
  C3, as amended. For an input with \<open>H\<close> and \<open>W\<close> divisible by a pool size of at least 2,
  the pooled value of every window is a finite number between \<open>min(0, min(window))\<close> and
  \<open>max(0, max(window))\<close>: the weights of the dominant entries are non-negative and add up
  to less than 1, so the value lies between the extremes of the window and zero. (For a
  feature map without negative entries, such as one that has passed through ReLU, it lies
  in \<open>[0, max(window)]\<close>.)
\<close>

theorem pooled_value_between_zero_and_extremes:
  assumes "2 \<le> pool_size self" "pool_size self dvd height x" "pool_size self dvd width x"
    and "b < batch_size x" "c < channels x"
    and "oi < height x div pool_size self" "oj < width x div pool_size self"
  shows "\<exists>out v. forward self x = Inr out \<and> elem out b c oi oj = Some v \<and>
           min 0 (Min (set (concat (spec_window x (pool_size self) b c oi oj)))) \<le> v \<and>
           v \<le> max 0 (Max (set (concat (spec_window x (pool_size self) b c oi oj))))"
proof -
  let ?p = "pool_size self"
  let ?w = "spec_window x ?p b c oi oj"
  have p: "0 < ?p" using assms(1) by simp
  have "2 * 2 \<le> ?p * ?p" using assms(1) by (intro mult_mono) simp_all
  then have n: "2 \<le> numel ?w" by (simp add: numel_spec_window)
  from pooled_value_bounds[OF n spec_window_rows[OF p]]
  obtain v where "pooled_value ?w = Some v"
    "min 0 (Min (set (concat ?w))) \<le> v" "v \<le> max 0 (Max (set (concat ?w)))" by blast
  with forward_value[OF p assms(2-7)] show ?thesis by auto
qed

lemma window_x_small: "window x_small 2 0 0 0 0 = [[1, 1], [1, 3]]"
  by (simp add: window_def x_small_def upt_rec)

lemma pooled_value_x_small:
  "\<exists>v. pooled_value [[1, 1], [1, 3]] = Some v \<and> v < 1"
proof -
  let ?w = "[[1, 1], [1, 3 :: real]]"
  have m: "mean23 ?w = Some (3 / 2)"
    by (simp add: mean23_def sum23_def numel_def)
  have s: "std23 ?w = Some 1"
    by (simp add: std23_def m sum23_def numel_def power2_eq_square)
  define g1 where "g1 = gaussian_membership 1 (3 / 2) (1 + eps)"
  define g3 where "g3 = gaussian_membership 3 (3 / 2) (1 + eps)"
  have g: "gmf_slice ?w = Some [[g1, g1], [g1, g3]]"
    by (simp add: gmf_slice_def m s g1_def g3_def Let_def)
  have pos: "0 < g1" "0 < g3"
    by (simp_all add: g1_def g3_def gaussian_membership_pos)
  have d: "0 < 2 * (1 + eps)\<^sup>2" using eps_pos by simp
  have "- ((3 - 3 / 2)\<^sup>2) / (2 * (1 + eps)\<^sup>2) < - ((1 - 3 / 2 :: real)\<^sup>2) / (2 * (1 + eps)\<^sup>2)"
    using d by (intro divide_strict_right_mono) (simp_all add: power2_eq_square)
  then have lt: "g3 < g1"
    by (simp add: g1_def g3_def gaussian_membership_def del: minus_divide_left)
  have t: "threshold_of [[g1, g1], [g1, g3]] = Some g1"
    using lt by (simp add: threshold_of_def max_def min_def)
  have "pooled_value ?w = Some (3 * g1 / (3 * g1 + g3 + eps))"
    using lt by (simp add: pooled_value_def g pooled_slice_def t sum23_def add_divide_distrib)
  moreover have "3 * g1 / (3 * g1 + g3 + eps) < 1"
    using pos eps_pos by simp
  ultimately show ?thesis by blast
qed

theorem pooled_value_between_zero_and_extremes_witness:
  "\<exists>out v. forward pool2 x_grid = Inr out \<and> elem out 1 2 1 2 = Some v \<and>
         min 0 (Min (set (concat (spec_window x_grid 2 1 2 1 2)))) \<le> v \<and>
         v \<le> max 0 (Max (set (concat (spec_window x_grid 2 1 2 1 2))))"
  using pooled_value_between_zero_and_extremes[of pool2 x_grid 1 2 1 2]
  by (simp add: pool2_def x_grid_def)

text \<open>
  The claim as stated fails: the window \<open>[[1, 1], [1, 3]]\<close> has minimum 1, its three
  entries 1 are dominant, and the pooled value \<open>3 g\<^sub>1 / (3 g\<^sub>1 + g\<^sub>3 + eps)\<close> is below 1.
\<close>

theorem pooled_value_below_window_minimum:
  "\<not> (\<exists>out v. forward pool2 x_small = Inr out \<and> elem out 0 0 0 0 = Some v \<and>
          Min (set (concat (window x_small 2 0 0 0 0))) \<le> v \<and>
          v \<le> Max (set (concat (window x_small 2 0 0 0 0))))"
proof -
  obtain v where v: "pooled_value [[1, 1], [1, 3]] = Some v" "v < 1"
    using pooled_value_x_small by blast
  have f: "\<exists>out. forward pool2 x_small = Inr out \<and>
           elem out 0 0 0 0 = pooled_value (window x_small 2 (0 * 2) (0 * 2) 0 0)"
    using forward_divisible[of pool2 x_small] by (simp add: pool2_def x_small_def)
  have "Min (set (concat (window x_small 2 0 0 0 0))) = 1"
    by (simp add: window_x_small)
  with v f show ?thesis by (auto simp: window_x_small)
qed

subsection \<open>Denominators\<close>

text \<open>
  For every window with at least two entries (so for every complete window when the pool
  size is at least 2), of zero variance or not, every division of the loop body has a
  positive denominator: the entry counts \<open>n\<close> and \<open>n - 1\<close> of the mean and the standard
  deviation, the membership denominator \<open>2 (std + eps)\<^sup>2\<close> and the weight denominator, the
  sum of the memberships plus \<open>eps\<close>.
\<close>

lemma denominators_positive:
  assumes "2 \<le> numel w"
  shows "\<exists>mean s gmf. mean23 w = Some mean \<and> std23 w = Some s \<and> gmf_slice w = Some gmf \<and>
           0 < real (numel w) \<and> 0 < real (numel w - 1) \<and>
           0 < 2 * (s + eps)\<^sup>2 \<and> 0 < sum23 gmf + eps"
proof -
  obtain mean s where ms: "mean23 w = Some mean" "std23 w = Some s" "0 \<le> s"
    using std23_window[OF assms] by blast
  let ?g = "\<lambda>x. gaussian_membership x mean (s + eps)"
  have g: "gmf_slice w = Some (map (map ?g) w)"
    using ms by (simp add: gmf_slice_def)
  have "0 < s + eps" using ms(3) eps_pos by linarith
  then have d: "0 < 2 * (s + eps)\<^sup>2" by simp
  have "0 \<le> (\<Sum>y\<leftarrow>concat w. ?g y)"
    by (intro sum_list_nonneg) (auto simp: gaussian_membership_pos less_imp_le)
  then have "0 < sum23 (map (map ?g) w) + eps"
    using eps_pos unfolding sum23_map_concat by linarith
  with ms g d assms show ?thesis by simp
qed

text \<open>
  C9. For every input window, every division of the layer has a positive denominator, so
  that no division by zero occurs. The layer with pool size 1 breaks this: a window of one
  entry has no sample standard deviation (\<^verbatim>\<open>torch.std\<close> divides by \<open>n - 1 = 0\<close> and
  returns NaN), there is no positive membership denominator, and the pooled value is NaN.
\<close>

theorem single_entry_window_divides_by_zero:
  "std23 (window x_small (pool_size pool1) 0 0 0 0) = None \<and>
   \<not> (\<exists>s. std23 (window x_small (pool_size pool1) 0 0 0 0) = Some s \<and> 0 < 2 * (s + eps)\<^sup>2) \<and>
   (\<exists>out. forward pool1 x_small = Inr out \<and> elem out 0 0 0 0 = None)"
proof -
  have w: "window x_small (pool_size pool1) 0 0 0 0 = [[1]]"
    by (simp add: window_def x_small_def pool1_def)
  have s: "std23 [[1]] = None"
    by (simp add: std23_def mean23_def numel_def sum23_def)
  have "\<exists>out. forward pool1 x_small = Inr out \<and>
          elem out 0 0 0 0 = pooled_value (window x_small (pool_size pool1) (0 * pool_size pool1) (0 * pool_size pool1) 0 0)"
    using forward_divisible[of pool1 x_small] by (simp add: pool1_def x_small_def)
  then show ?thesis
    by (simp add: w s pooled_value_def gmf_slice_def mean23_def numel_def sum23_def)
qed

subsection \<open>Sizes that the pool size does not divide\<close>

lemma for_each_append:
  "for_each (xs @ ys) body s =
     (case for_each xs body s of Inl e \<Rightarrow> Inl e | Inr s' \<Rightarrow> for_each ys body s')"
  by (induction xs arbitrary: s) (simp_all split: sum.splits)

lemma range_step_not_dvd:
  assumes "0 < p" "\<not> p dvd n"
  shows "range_step n p = map (\<lambda>k. k * p) [0 ..< n div p] @ [n div p * p]"
proof -
  define q m where "q = n div p" and "m = n mod p"
  have n: "n = q * p + m" by (simp add: q_def m_def)
  have m: "0 < m" "m < p" using assms by (simp_all add: m_def dvd_eq_mod_eq_0)
  have "n + p - 1 = (m - 1) + (q + 1) * p"
    using m by (simp add: n algebra_simps)
  moreover have "((m - 1) + (q + 1) * p) div p = (q + 1) + (m - 1) div p"
    using assms(1) by (intro div_mult_self1) simp
  ultimately have "(n + p - 1) div p = (m - 1) div p + (q + 1)"
    by (simp only: add.commute)
  also have "(m - 1) div p = 0" using m by simp
  finally have "(n + p - 1) div p = Suc (n div p)" by (simp add: q_def)
  then show ?thesis by (simp add: range_step_def)
qed

lemma for_each_first_fails:
  "xs \<noteq> [] \<Longrightarrow> body (hd xs) s = Inl e \<Longrightarrow> for_each xs body s = Inl e"
  by (cases xs) simp_all

lemma range_step_hd: "0 < p \<Longrightarrow> 0 < n \<Longrightarrow> hd (range_step n p) = 0"
proof -
  assume p: "0 < p" and n: "0 < n"
  then have "p \<le> n + p - 1" by simp
  then have "0 < (n + p - 1) div p" using p by (simp add: div_greater_zero_iff)
  then show ?thesis by (simp add: range_step_def hd_map hd_upt)
qed

text \<open>
  Whenever the pool size does not divide both the height and the width, and there is at
  least one row and one column, the forward pass raises \<^verbatim>\<open>IndexError\<close>.
\<close>

lemma forward_not_divisible:
  assumes "0 < pool_size self" "0 < height x" "0 < width x"
    and "\<not> (pool_size self dvd height x \<and> pool_size self dvd width x)"
  shows "forward self x = Inl IndexError"
proof -
  let ?p = "pool_size self"
  let ?H = "height x div ?p"
  let ?W = "width x div ?p"
  let ?z = "zeros (batch_size x) (channels x) ?H ?W"
  let ?V = "\<lambda>i j b c. pooled_value (window x ?p i j b c)"
  let ?inner = "\<lambda>i. for_each (range_step (width x) ?p) (\<lambda>j out. assign out (i div ?p) (j div ?p) (?V i j))"
  have fw: "forward self x = for_each (range_step (height x) ?p) ?inner ?z"
    using assms(1) by (simp add: forward_def)
  have js: "range_step (width x) ?p \<noteq> []" using assms(1,3) by (rule range_step_nonempty)
  have "is": "range_step (height x) ?p \<noteq> []" using assms(1,2) by (rule range_step_nonempty)
  have row_out: "?inner i out = Inl IndexError" if "\<not> i div ?p < height out" for i out
    using that by (intro for_each_first_fails[OF js]) (simp add: assign_def)
  show ?thesis
  proof (cases "?p dvd width x")
    case False
    have inner: "?inner i out = Inl IndexError" if "width out = ?W" for i out
    proof (cases "i div ?p < height out")
      case True
      have "for_each (map (\<lambda>k. k * ?p) [0 ..< ?W]) (\<lambda>j out. assign out (i div ?p) (j div ?p) (?V i j)) out
          = Inr (out\<lparr>elem := (\<lambda>b c r' q.
                if b < batch_size out \<and> c < channels out \<and> r' = i div ?p \<and> q \<in> set [0 ..< ?W]
                then ?V i (q * ?p) b c else elem out b c r' q)\<rparr>)"
        using assms(1) True that by (intro inner_loop) simp_all
      then show ?thesis
        using assms(1) that
        by (simp add: range_step_not_dvd[OF assms(1) False] for_each_append assign_def)
    next
      case False
      then show ?thesis by (rule row_out)
    qed
    have "?inner (hd (range_step (height x) ?p)) ?z = Inl IndexError"
      by (rule inner) (simp add: zeros_def)
    then show ?thesis
      unfolding fw by (rule for_each_first_fails[OF "is"])
  next
    case True
    with assms(4) have nd: "\<not> ?p dvd height x" by simp
    let ?out1 = "?z\<lparr>elem := (\<lambda>b c r q.
                if b < batch_size ?z \<and> c < channels ?z \<and> r \<in> set [0 ..< ?H] \<and> q \<in> set [0 ..< ?W]
                then ?V (r * ?p) (q * ?p) b c else elem ?z b c r q)\<rparr>"
    have "for_each (map (\<lambda>k. k * ?p) [0 ..< ?H]) (\<lambda>i.
           for_each (map (\<lambda>k. k * ?p) [0 ..< ?W]) (\<lambda>j out. assign out (i div ?p) (j div ?p) (?V i j))) ?z =
         Inr ?out1"
      using assms(1) by (intro outer_loop) (simp_all add: zeros_def)
    then have a: "for_each (map (\<lambda>k. k * ?p) [0 ..< ?H]) ?inner ?z = Inr ?out1"
      by (simp only: range_step_dvd[OF assms(1) True])
    have b: "?inner (?H * ?p) ?out1 = Inl IndexError"
      using assms(1) by (intro row_out) (simp add: zeros_def)
    have "forward self x =
        (case for_each (map (\<lambda>k. k * ?p) [0 ..< ?H]) ?inner ?z of
           Inl e \<Rightarrow> Inl e
         | Inr s' \<Rightarrow> for_each [?H * ?p] ?inner s')"
      unfolding fw range_step_not_dvd[OF assms(1) nd] by (rule for_each_append)
    also have "\<dots> = Inl IndexError"
      unfolding a using b by simp
    finally show ?thesis .
  qed
qed

text \<open>
  C5. For an input whose height or width is not a multiple of the pool size, the forward
  pass is to complete without error and return the map of the complete windows only, of
  size \<open>(B, C, H div pool_size, W div pool_size)\<close>, with no index out of bounds. The layer
  does not: its loops also visit the window that starts in the trailing columns, and the
  assignment of that window's value is out of bounds. On an input of width 3 and pool size
  2 the forward pass raises \<^verbatim>\<open>IndexError\<close>.
\<close>

theorem forward_partial_window_index_error: "forward pool2 x_odd = Inl IndexError"
  by (simp add: forward_def pool2_def x_odd_def range_step_def upt_rec assign_def zeros_def)

subsection \<open>The loops of the layer with RegP\<close>

lemma forward_pool_size: "pool_size a = pool_size b \<Longrightarrow> forward a x = forward b x"
  by (simp add: forward_def)

lemma regp_inner_loop:
  "for_each js (\<lambda>j (out, acc).
       case assign out (oi j) (oj j) (V j) of
         Inl e \<Rightarrow> Inl e
       | Inr out' \<Rightarrow> Inr (out', py_add acc (R j))) (out, acc) =
   (case for_each js (\<lambda>j out. assign out (oi j) (oj j) (V j)) out of
      Inl e \<Rightarrow> Inl e
    | Inr out' \<Rightarrow> Inr (out', fold (\<lambda>j a. py_add a (R j)) js acc))"
proof (induction js arbitrary: out acc)
  case Nil
  then show ?case by simp
next
  case (Cons j js)
  show ?case
  proof (cases "assign out (oi j) (oj j) (V j)")
    case (Inl e)
    then show ?thesis by simp
  next
    case (Inr out')
    then show ?thesis by (simp add: Cons.IH split: sum.splits)
  qed
qed

lemma regp_outer_loop:
  "for_each is (\<lambda>i. for_each js (\<lambda>j (out, acc).
       case assign out (oi i) (oj j) (V i j) of
         Inl e \<Rightarrow> Inl e
       | Inr out' \<Rightarrow> Inr (out', py_add acc (R i j)))) (out, acc) =
   (case for_each is (\<lambda>i. for_each js (\<lambda>j out. assign out (oi i) (oj j) (V i j))) out of
      Inl e \<Rightarrow> Inl e
    | Inr out' \<Rightarrow> Inr (out', fold (\<lambda>i. fold (\<lambda>j a. py_add a (R i j)) js) is acc))"
proof (induction "is" arbitrary: out acc)
  case Nil
  then show ?case by simp
next
  case (Cons i "is")
  show ?case
  proof (cases "for_each js (\<lambda>j out. assign out (oi i) (oj j) (V i j)) out")
    case (Inl e)
    then show ?thesis
      by (simp add: regp_inner_loop[where oi = "\<lambda>_. oi i" and V = "V i" and R = "R i"])
  next
    case (Inr out')
    then show ?thesis
      by (simp add: regp_inner_loop[where oi = "\<lambda>_. oi i" and V = "V i" and R = "R i"] Cons.IH
          split: sum.splits)
  qed
qed

text \<open>The forward pass with RegP is the plain one, then the final division.\<close>

lemma forward_regp_split:
  "forward_regp self x =
     (case forward self x of
        Inl e \<Rightarrow> Inl e
      | Inr out \<Rightarrow>
          (case py_div
                  (fold (\<lambda>i. fold (\<lambda>j a. py_add a
                      (regularization_penalty self (batch_size x) (channels x)
                         (\<lambda>b c. gmf_slice (window x (pool_size self) i j b c))))
                      (range_step (width x) (pool_size self)))
                    (range_step (height x) (pool_size self)) (PyInt 0))
                  (batch_size x * channels x) of
             Inl e \<Rightarrow> Inl e
           | Inr loss \<Rightarrow> Inr (self\<lparr>regp_loss := Some loss\<rparr>, out)))"
proof (cases "pool_size self = 0")
  case True
  then show ?thesis by (simp add: forward_regp_def forward_def)
next
  case False
  let ?p = "pool_size self"
  have body: "(\<lambda>b c. case gmf_slice (window x ?p i j b c) of None \<Rightarrow> None
                 | Some g \<Rightarrow> pooled_slice (window x ?p i j b c) g) =
        (\<lambda>b c. pooled_value (window x ?p i j b c))" for i j
    by (simp add: pooled_value_def)
  show ?thesis
    using False
    by (simp add: forward_regp_def forward_def Let_def body
        regp_outer_loop[where oi = "\<lambda>i. i div ?p" and oj = "\<lambda>j. j div ?p"
          and V = "\<lambda>i j b c. pooled_value (window x ?p i j b c)"]
        split: sum.splits)
qed

lemma py_div_pos: "0 < d \<Longrightarrow> py_div t d = Inr (map_option (\<lambda>y. y / real d) (pyval t))"
  by (cases t) (auto split: option.splits)

lemma fold_py_add_Scalar: "\<exists>a'. fold (\<lambda>j a. py_add a (R j)) js (Scalar a) = Scalar a'"
  by (induction js arbitrary: a) simp_all

lemma py_add_Scalar: "\<exists>a. py_add t v = Scalar a"
  by (cases t) simp_all

lemma fold_py_add_nonempty:
  assumes "js \<noteq> []"
  shows "\<exists>a. fold (\<lambda>j a. py_add a (R j)) js t = Scalar a"
proof -
  obtain j js' where js: "js = j # js'" using assms by (cases js) auto
  obtain a where "py_add t (R j) = Scalar a" using py_add_Scalar by blast
  then show ?thesis using fold_py_add_Scalar[of R js' a] by (simp add: js)
qed

lemma fold2_py_add_Scalar:
  "\<exists>a'. fold (\<lambda>i. fold (\<lambda>j a. py_add a (R i j)) js) is (Scalar a) = Scalar a'"
proof (induction "is" arbitrary: a)
  case Nil
  then show ?case by simp
next
  case (Cons i "is")
  obtain a1 where "fold (\<lambda>j a. py_add a (R i j)) js (Scalar a) = Scalar a1"
    using fold_py_add_Scalar[of "R i" js a] by blast
  then show ?case using Cons.IH[of a1] by simp
qed

lemma fold2_py_add_nonempty:
  assumes "is \<noteq> []" "js \<noteq> []"
  shows "\<exists>a. fold (\<lambda>i. fold (\<lambda>j a. py_add a (R i j)) js) is t = Scalar a"
proof -
  obtain i is' where "is": "is = i # is'" using assms(1) by (cases "is") auto
  obtain a where "fold (\<lambda>j a. py_add a (R i j)) js t = Scalar a"
    using fold_py_add_nonempty[OF assms(2), of "R i" t] by blast
  then show ?thesis using fold2_py_add_Scalar[of R js is' a] by (simp add: "is")
qed

text \<open>
  On every input that has a batch item and a channel, or a row and a column, the layer with
  RegP returns what the plain layer with the same pool size returns, the same pooled map
  or the same error, and changes nothing of itself but \<^verbatim>\<open>regp_loss\<close>.
\<close>

lemma forward_regp_same_output:
  fixes self :: "'m fuzzy_pooling_layer_regp_scheme" and plain :: "'k fuzzy_pooling_layer_scheme"
  assumes "pool_size plain = pool_size self"
    and "0 < batch_size x * channels x \<or> (0 < height x \<and> 0 < width x)"
  shows "case forward_regp self x of
           Inl e \<Rightarrow> forward plain x = Inl e
         | Inr (self', out) \<Rightarrow>
             forward plain x = Inr out \<and> (\<exists>l. self' = self\<lparr>regp_loss := Some l\<rparr>)"
proof (cases "forward self x")
  case (Inl e)
  then show ?thesis
    using forward_pool_size[OF assms(1), of x] by (simp add: forward_regp_split)
next
  case (Inr out)
  let ?t = "fold (\<lambda>i. fold (\<lambda>j a. py_add a
                      (regularization_penalty self (batch_size x) (channels x)
                         (\<lambda>b c. gmf_slice (window x (pool_size self) i j b c))))
                      (range_step (width x) (pool_size self)))
                    (range_step (height x) (pool_size self)) (PyInt 0)"
  have p: "0 < pool_size self"
    using Inr by (cases "pool_size self = 0") (simp_all add: forward_def)
  have "\<exists>l. py_div ?t (batch_size x * channels x) = Inr l"
  proof (cases "0 < batch_size x * channels x")
    case True
    then show ?thesis using py_div_pos[of "batch_size x * channels x" ?t] by simp
  next
    case False
    with assms(2) have "0 < height x" "0 < width x" by auto
    then have ne: "range_step (height x) (pool_size self) \<noteq> []"
      "range_step (width x) (pool_size self) \<noteq> []"
      using p by (simp_all add: range_step_nonempty)
    have "\<exists>a. ?t = Scalar a"
      by (rule fold2_py_add_nonempty[OF ne])
    then obtain a where "?t = Scalar a" ..
    then show ?thesis by simp
  qed
  then obtain l where "py_div ?t (batch_size x * channels x) = Inr l" by blast
  then show ?thesis
    using Inr forward_pool_size[OF assms(1), of x] by (auto simp: forward_regp_split)
qed

text \<open>
  C10. For every input tensor the plain layer and the layer with RegP return the same
  pooled output; the layer with RegP only computes the regularization scalar in addition.
  On the empty input of size \<open>(0, 1, 0, 0)\<close> they differ: no window is visited,
  \<^verbatim>\<open>regp_total\<close> is still the Python integer 0, and the final division by
  \<open>batch_size * channels = 0\<close> raises \<^verbatim>\<open>ZeroDivisionError\<close>, where the plain layer returns
  the empty pooled map.
\<close>

theorem forward_regp_empty_input_raises:
  "forward pool2 x_empty = Inr (zeros 0 1 0 0) \<and>
   forward_regp pool2_regp x_empty = Inl ZeroDivisionError"
  by (simp add: forward_def forward_regp_def pool2_def pool2_regp_def x_empty_def
      range_step_def zeros_def)

subsection \<open>The regularization scalar\<close>

lemma those_map_Some_id: "those (map Some ys) = Some ys"
  by (induction ys) simp_all

lemma mean_all_Some: "ys \<noteq> [] \<Longrightarrow> mean_all (map Some ys) = Some (sum_list ys / real (length ys))"
  by (simp add: mean_all_def those_map_Some_id)

lemma sum_list_concat_map:
  fixes q :: "'a \<Rightarrow> 'b \<Rightarrow> real"
  shows "sum_list (concat (map (\<lambda>b. map (q b) cs) bs)) = (\<Sum>b\<leftarrow>bs. \<Sum>c\<leftarrow>cs. q b c)"
  by (induction bs) simp_all

lemma length_concat_map: "length (concat (map (\<lambda>b. map (q b) cs) bs)) = length bs * length cs"
  by (induction bs) simp_all

lemma regularization_penalty_value:
  assumes "0 < B" "0 < C" "\<forall>b<B. \<forall>c<C. gmf b c = Some (g b c)"
  shows "regularization_penalty self B C gmf =
           Some (reg_lambda self *
                  ((\<Sum>b\<leftarrow>[0 ..< B]. \<Sum>c\<leftarrow>[0 ..< C]. sum23 (map (map (\<lambda>m. m\<^sup>2)) (g b c))) / real (B * C)))"
proof -
  let ?F = "\<lambda>g. sum23 (map (map (\<lambda>m. m\<^sup>2)) g)"
  let ?ys = "concat (map (\<lambda>b. map (\<lambda>c. ?F (g b c)) [0 ..< C]) [0 ..< B])"
  have "map (\<lambda>b. map (\<lambda>c. map_option ?F (gmf b c)) [0 ..< C]) [0 ..< B] =
        map (\<lambda>b. map (\<lambda>c. Some (?F (g b c))) [0 ..< C]) [0 ..< B]"
    using assms(3) by (intro map_cong refl) simp
  also have "concat \<dots> = map Some ?ys"
    by (simp add: map_concat comp_def)
  finally have "concat (map (\<lambda>b. map (\<lambda>c. map_option ?F (gmf b c)) [0 ..< C]) [0 ..< B]) = map Some ?ys" .
  moreover have "length ?ys = B * C"
    by (simp add: length_concat_map)
  moreover have "?ys \<noteq> []"
    using \<open>length ?ys = B * C\<close> assms(1,2) by (metis length_0_conv mult_is_0 not_less_zero)
  moreover have "sum_list ?ys = (\<Sum>b\<leftarrow>[0 ..< B]. \<Sum>c\<leftarrow>[0 ..< C]. ?F (g b c))"
    by (rule sum_list_concat_map)
  ultimately show ?thesis
    by (simp add: regularization_penalty_def mean_all_Some fmul_def)
qed

lemma pyval_py_add: "pyval (py_add t v) = fadd (pyval t) v"
  by (cases t) simp_all

lemma fold_py_add_value:
  assumes "\<forall>j\<in>set js. R j = Some (r j)" "pyval t = Some a"
  shows "pyval (fold (\<lambda>j a. py_add a (R j)) js t) = Some (a + (\<Sum>j\<leftarrow>js. r j))"
  using assms
proof (induction js arbitrary: t a)
  case Nil
  then show ?case by simp
next
  case (Cons j js)
  have "pyval (py_add t (R j)) = Some (a + r j)"
    using Cons.prems by (simp add: pyval_py_add fadd_def)
  then have "pyval (fold (\<lambda>j a. py_add a (R j)) js (py_add t (R j))) = Some (a + r j + (\<Sum>j\<leftarrow>js. r j))"
    using Cons.prems(1) by (intro Cons.IH) simp_all
  then show ?case by (simp add: add.assoc)
qed

lemma fold2_py_add_value:
  assumes "\<forall>i\<in>set is. \<forall>j\<in>set js. R i j = Some (r i j)" "pyval t = Some a"
  shows "pyval (fold (\<lambda>i. fold (\<lambda>j a. py_add a (R i j)) js) is t) =
           Some (a + (\<Sum>i\<leftarrow>is. \<Sum>j\<leftarrow>js. r i j))"
  using assms
proof (induction "is" arbitrary: t a)
  case Nil
  then show ?case by simp
next
  case (Cons i "is")
  have "pyval (fold (\<lambda>j a. py_add a (R i j)) js t) = Some (a + (\<Sum>j\<leftarrow>js. r i j))"
    using Cons.prems by (intro fold_py_add_value) simp_all
  then have "pyval (fold (\<lambda>i. fold (\<lambda>j a. py_add a (R i j)) js) is (fold (\<lambda>j a. py_add a (R i j)) js t))
      = Some (a + (\<Sum>j\<leftarrow>js. r i j) + (\<Sum>i\<leftarrow>is. \<Sum>j\<leftarrow>js. r i j))"
    using Cons.prems(1) by (intro Cons.IH) simp_all
  then show ?case by (simp add: add.assoc)
qed

lemma range_step_complete_window:
  assumes "0 < p" "p dvd height x" "p dvd width x"
    and "i \<in> set (range_step (height x) p)" "j \<in> set (range_step (width x) p)"
  shows "window x p i j b c = spec_window x p b c (i div p) (j div p)"
proof -
  obtain r where r: "i = r * p" "r < height x div p"
    using assms(1,2,4) by (auto simp: range_step_dvd)
  obtain q where q: "j = q * p" "q < width x div p"
    using assms(1,3,5) by (auto simp: range_step_dvd)
  show ?thesis
    using window_complete[OF r(2) q(2), of b c] assms(1) by (simp add: r(1) q(1))
qed

lemma gmf_slice_window:
  assumes "2 \<le> numel w"
  shows "\<exists>g. gmf_slice w = Some g"
proof -
  obtain mean s where "mean23 w = Some mean" "std23 w = Some s"
    using std23_window[OF assms] by blast
  then show ?thesis by (simp add: gmf_slice_def)
qed

lemma sum23_squares_nonneg: "0 \<le> sum23 (map (map (\<lambda>m. m\<^sup>2)) g)"
  unfolding sum23_map_concat by (intro sum_list_nonneg) auto

lemma membership_sq_sum_nonneg: "0 \<le> membership_sq_sum w"
  by (simp add: membership_sq_sum_def sum23_squares_nonneg split: option.splits)

lemma sum_list2_const_mult:
  fixes f :: "'a \<Rightarrow> 'b \<Rightarrow> real"
  shows "(\<Sum>i\<leftarrow>is. \<Sum>j\<leftarrow>js. c * f i j) = c * (\<Sum>i\<leftarrow>is. \<Sum>j\<leftarrow>js. f i j)"
  by (simp add: sum_list_const_mult)

text \<open>The scalar that a forward pass stores, on an input with complete windows.\<close>

lemma forward_regp_value:
  fixes self :: "'m fuzzy_pooling_layer_regp_scheme"
  assumes "2 \<le> pool_size self" "pool_size self dvd height x" "pool_size self dvd width x"
    and "0 < batch_size x" "0 < channels x"
  shows "\<exists>out. forward_regp self x =
           Inr (self\<lparr>regp_loss := Some (Some (reg_lambda self *
                  ((\<Sum>i\<leftarrow>range_step (height x) (pool_size self).
                    \<Sum>j\<leftarrow>range_step (width x) (pool_size self).
                      (\<Sum>b\<leftarrow>[0 ..< batch_size x]. \<Sum>c\<leftarrow>[0 ..< channels x].
                         membership_sq_sum (window x (pool_size self) i j b c)) /
                      real (batch_size x * channels x)) /
                   real (batch_size x * channels x))))\<rparr>, out)"
proof -
  let ?p = "pool_size self"
  let ?B = "batch_size x"
  let ?C = "channels x"
  let ?is = "range_step (height x) ?p"
  let ?js = "range_step (width x) ?p"
  let ?k = "\<lambda>i j. (\<Sum>b\<leftarrow>[0 ..< ?B]. \<Sum>c\<leftarrow>[0 ..< ?C]. membership_sq_sum (window x ?p i j b c)) /
                  real (?B * ?C)"
  let ?t = "fold (\<lambda>i. fold (\<lambda>j a. py_add a
               (regularization_penalty self ?B ?C (\<lambda>b c. gmf_slice (window x ?p i j b c)))) ?js)
             ?is (PyInt 0)"
  have p: "0 < ?p" using assms(1) by simp
  have BC: "0 < ?B * ?C" using assms(4,5) by simp
  have g: "\<exists>g. gmf_slice (window x ?p i j b c) = Some g"
    if "i \<in> set ?is" "j \<in> set ?js" for i j b c
  proof -
    have "2 * 2 \<le> ?p * ?p" using assms(1) by (intro mult_mono) simp_all
    then have "2 \<le> numel (window x ?p i j b c)"
      by (simp add: range_step_complete_window[OF p assms(2,3) that] numel_spec_window)
    then show ?thesis by (rule gmf_slice_window)
  qed
  have R: "regularization_penalty self ?B ?C (\<lambda>b c. gmf_slice (window x ?p i j b c)) =
             Some (reg_lambda self * ?k i j)"
    if ij: "i \<in> set ?is" "j \<in> set ?js" for i j
  proof -
    have e: "gmf_slice (window x ?p i j b c) = Some (the (gmf_slice (window x ?p i j b c)))" for b c
    proof -
      obtain g where "gmf_slice (window x ?p i j b c) = Some g"
        using g[OF ij] by blast
      then show ?thesis by simp
    qed
    have m: "membership_sq_sum (window x ?p i j b c) =
               sum23 (map (map (\<lambda>m. m\<^sup>2)) (the (gmf_slice (window x ?p i j b c))))" for b c
    proof -
      obtain g where "gmf_slice (window x ?p i j b c) = Some g"
        using g[OF ij] by blast
      then show ?thesis by (simp add: membership_sq_sum_def)
    qed
    have "\<forall>b<?B. \<forall>c<?C. gmf_slice (window x ?p i j b c) =
            Some (the (gmf_slice (window x ?p i j b c)))"
      using e by blast
    from regularization_penalty_value[OF assms(4,5) this, of self]
    show ?thesis
      by (simp only: m)
  qed
  obtain out where f: "forward self x = Inr out"
    using forward_divisible[of self x] p assms(2,3) by simp
  have "pyval ?t = Some (0 + (\<Sum>i\<leftarrow>?is. \<Sum>j\<leftarrow>?js. reg_lambda self * ?k i j))"
    by (intro fold2_py_add_value) (simp_all add: R)
  also have "(\<Sum>i\<leftarrow>?is. \<Sum>j\<leftarrow>?js. reg_lambda self * ?k i j) =
             reg_lambda self * (\<Sum>i\<leftarrow>?is. \<Sum>j\<leftarrow>?js. ?k i j)"
    by (rule sum_list2_const_mult)
  finally have "py_div ?t (?B * ?C) =
      Inr (Some (reg_lambda self * ((\<Sum>i\<leftarrow>?is. \<Sum>j\<leftarrow>?js. ?k i j) / real (?B * ?C))))"
    using py_div_pos[OF BC, of ?t] by simp
  then show ?thesis
    using f by (simp add: forward_regp_split)
qed

lemma spec_membership_sq_sum_window:
  assumes "2 \<le> numel w"
  shows "spec_membership_sq_sum w = Some (membership_sq_sum w)"
proof -
  obtain mean s where ms: "mean23 w = Some mean" "std23 w = Some s"
    using std23_window[OF assms] by blast
  have "gmf_slice w = Some (map (map (\<lambda>x. gaussian_membership x mean (s + eps))) w)"
    using ms by (simp add: gmf_slice_def)
  then have "membership_sq_sum w = (\<Sum>x\<leftarrow>concat w. (gaussian_membership x mean (s + eps))\<^sup>2)"
    by (simp add: membership_sq_sum_def sum23_map_concat[of "\<lambda>x. (gaussian_membership x mean (s + eps))\<^sup>2", symmetric] comp_def)
  then show ?thesis
    using ms by (simp add: spec_membership_sq_sum_def mean23_spec std23_spec gaussian_membership_def)
qed

lemma concat_map_Some: "concat (map (\<lambda>a. map Some (F a)) as) = map Some (concat (map F as))"
  by (simp add: map_concat comp_def)

lemma sum_list_concat_sum: "sum_list (concat (map F as)) = (\<Sum>a\<leftarrow>as. sum_list (F a :: real list))"
  by (induction as) simp_all

lemma spec_regp_value:
  assumes "2 \<le> p" "0 < batch_size x" "0 < channels x"
  shows "spec_regp lam p x =
           Some (lam * (\<Sum>oi\<leftarrow>[0 ..< height x div p]. \<Sum>oj\<leftarrow>[0 ..< width x div p].
                         \<Sum>b\<leftarrow>[0 ..< batch_size x]. \<Sum>c\<leftarrow>[0 ..< channels x].
                           membership_sq_sum (spec_window x p b c oi oj)) /
                 real (batch_size x * channels x))"
proof -
  have "2 * 2 \<le> p * p" using assms(1) by (intro mult_mono) simp_all
  then have q: "spec_membership_sq_sum (spec_window x p b c oi oj) =
                  Some (membership_sq_sum (spec_window x p b c oi oj))" for b c oi oj
    by (intro spec_membership_sq_sum_window) (simp add: numel_spec_window)
  let ?Q = "\<lambda>oi oj b c. membership_sq_sum (spec_window x p b c oi oj)"
  let ?ys = "concat (map (\<lambda>oi. concat (map (\<lambda>oj. concat (map (\<lambda>b. map (\<lambda>c. ?Q oi oj b c)
               [0 ..< channels x]) [0 ..< batch_size x])) [0 ..< width x div p])) [0 ..< height x div p])"
  have "concat (map (\<lambda>oi. concat (map (\<lambda>oj. concat (map (\<lambda>b. map (\<lambda>c.
               spec_membership_sq_sum (spec_window x p b c oi oj))
             [0 ..< channels x]) [0 ..< batch_size x]))
             [0 ..< width x div p])) [0 ..< height x div p]) = map Some ?ys"
    unfolding q by (simp add: map_concat comp_def)
  moreover have "sum_list ?ys = (\<Sum>oi\<leftarrow>[0 ..< height x div p]. \<Sum>oj\<leftarrow>[0 ..< width x div p].
                         \<Sum>b\<leftarrow>[0 ..< batch_size x]. \<Sum>c\<leftarrow>[0 ..< channels x]. ?Q oi oj b c)"
    by (simp add: sum_list_concat_sum comp_def)
  ultimately show ?thesis
    using assms(2,3) by (simp add: spec_regp_def those_map_Some_id)
qed

text \<open>The stored scalar is the reference value divided once more by \<open>B * C\<close>.\<close>

lemma regp_loss_is_reference_over_slices:
  fixes self :: "'m fuzzy_pooling_layer_regp_scheme"
  assumes "2 \<le> pool_size self" "pool_size self dvd height x" "pool_size self dvd width x"
    and "0 < batch_size x" "0 < channels x"
  shows "\<exists>out s. forward_regp self x =
             Inr (self\<lparr>regp_loss := Some (Some (s / real (batch_size x * channels x)))\<rparr>, out) \<and>
           spec_regp (reg_lambda self) (pool_size self) x = Some s"
proof -
  let ?p = "pool_size self"
  let ?n = "real (batch_size x * channels x)"
  let ?S = "\<lambda>i j. (\<Sum>b\<leftarrow>[0 ..< batch_size x]. \<Sum>c\<leftarrow>[0 ..< channels x].
                    membership_sq_sum (window x ?p i j b c))"
  let ?S' = "\<lambda>oi oj. (\<Sum>b\<leftarrow>[0 ..< batch_size x]. \<Sum>c\<leftarrow>[0 ..< channels x].
                    membership_sq_sum (spec_window x ?p b c oi oj))"
  have p: "0 < ?p" using assms(1) by simp
  have "(\<Sum>i\<leftarrow>range_step (height x) ?p. \<Sum>j\<leftarrow>range_step (width x) ?p. ?S i j / ?n) =
        (\<Sum>oi\<leftarrow>[0 ..< height x div ?p]. \<Sum>oj\<leftarrow>[0 ..< width x div ?p]. ?S (oi * ?p) (oj * ?p) / ?n)"
    by (simp add: range_step_dvd[OF p assms(2)] range_step_dvd[OF p assms(3)] comp_def)
  also have "\<dots> = (\<Sum>oi\<leftarrow>[0 ..< height x div ?p]. \<Sum>oj\<leftarrow>[0 ..< width x div ?p]. ?S' oi oj / ?n)"
    by (intro arg_cong[where f = sum_list] map_cong refl) (simp add: window_complete)
  also have "\<dots> = (\<Sum>oi\<leftarrow>[0 ..< height x div ?p]. \<Sum>oj\<leftarrow>[0 ..< width x div ?p]. ?S' oi oj) / ?n"
    by (simp only: sum_list_divide)
  finally have e: "(\<Sum>i\<leftarrow>range_step (height x) ?p. \<Sum>j\<leftarrow>range_step (width x) ?p. ?S i j / ?n) =
      (\<Sum>oi\<leftarrow>[0 ..< height x div ?p]. \<Sum>oj\<leftarrow>[0 ..< width x div ?p]. ?S' oi oj) / ?n" .
  obtain out where "forward_regp self x =
           Inr (self\<lparr>regp_loss := Some (Some (reg_lambda self *
                  ((\<Sum>i\<leftarrow>range_step (height x) ?p. \<Sum>j\<leftarrow>range_step (width x) ?p. ?S i j / ?n) / ?n)))\<rparr>, out)"
    using forward_regp_value[OF assms] by blast
  then have "forward_regp self x =
           Inr (self\<lparr>regp_loss := Some (Some (
               (reg_lambda self * (\<Sum>oi\<leftarrow>[0 ..< height x div ?p]. \<Sum>oj\<leftarrow>[0 ..< width x div ?p]. ?S' oi oj) / ?n) / ?n))\<rparr>, out)"
    unfolding e by simp
  then show ?thesis
    using spec_regp_value[OF assms(1,4,5), of "reg_lambda self"] by blast
qed

lemma window_x_pair: "window x_pair 2 0 0 b c = [[1, 1], [1, 1]]"
  by (simp add: window_def x_pair_def upt_rec)

lemma gmf_slice_ones: "gmf_slice [[1, 1], [1, 1]] = Some [[1, 1], [1, 1]]"
  by (simp add: gmf_slice_def mean23_def std23_def sum23_def numel_def gaussian_membership_def)

lemma x_pair_size:
  "batch_size x_pair = 2" "channels x_pair = 1" "height x_pair = 2" "width x_pair = 2"
  by (simp_all add: x_pair_def)

lemma pool2_regp_fields: "pool_size pool2_regp = 2" "reg_lambda pool2_regp = 1 / 100"
  by (simp_all add: pool2_regp_def)

lemma range_step_2_2: "range_step 2 2 = [0]"
  by (simp add: range_step_def)

lemma forward_regp_x_pair:
  "\<exists>out. forward_regp (pool2_regp\<lparr>reg_lambda := lam\<rparr>) x_pair =
            Inr (pool2_regp\<lparr>reg_lambda := lam, regp_loss := Some (Some (lam * 2))\<rparr>, out)"
proof -
  let ?self = "pool2_regp\<lparr>reg_lambda := lam\<rparr>"
  have s: "pool_size ?self = 2" "reg_lambda ?self = lam"
    by (simp_all add: pool2_regp_def)
  obtain out where f: "forward ?self x_pair = Inr out"
    using forward_divisible[of ?self x_pair] by (simp add: x_pair_size s)
  have "mean_all [Some 4, Some 4] = Some 4"
    by (simp add: mean_all_def)
  then have "regularization_penalty ?self 2 1 (\<lambda>b c. gmf_slice (window x_pair 2 0 0 b c)) = Some (lam * 4)"
    by (simp add: regularization_penalty_def window_x_pair gmf_slice_ones sum23_def
        upt_rec fmul_def s)
  then have "forward_regp ?self x_pair = Inr (?self\<lparr>regp_loss := Some (Some (lam * 2))\<rparr>, out)"
    by (simp add: forward_regp_split f x_pair_size s range_step_2_2 fadd_def)
  then show ?thesis by auto
qed

text \<open>
  C2. After a forward pass on an input with \<open>H\<close> and \<open>W\<close> divisible by the pool size, the
  scalar of the layer with RegP is to equal \<open>reg_lambda\<close> times the total of
  \<open>sum(membership\<^sup>2)\<close> over all windows, batch items and channels, divided once by
  \<open>B * C\<close>. The layer divides twice: \<^verbatim>\<open>penalty.mean()\<close> in
  \<^verbatim>\<open>regularization_penalty\<close> already divides each window's sum by \<open>B * C\<close>, and
  \<^verbatim>\<open>regp_total / (batch_size * channels)\<close> divides again. On two batch items of one
  \<open>2 \<times> 2\<close> window of ones (total 8, \<open>reg_lambda = 0.01\<close>) the layer stores \<open>0.02\<close>, the
  reference value is \<open>0.04\<close>.
\<close>

theorem regp_loss_divided_twice:
  "(\<exists>out. forward_regp pool2_regp x_pair =
            Inr (pool2_regp\<lparr>regp_loss := Some (Some (1 / 50))\<rparr>, out)) \<and>
   spec_regp (reg_lambda pool2_regp) (pool_size pool2_regp) x_pair = Some (1 / 25)"
proof -
  have w: "spec_window x_pair 2 b c 0 0 = [[1, 1], [1, 1]]" for b c
    by (simp add: spec_window_def x_pair_def upt_rec)
  have q: "spec_membership_sq_sum [[1, 1], [1, 1]] = Some 4"
    by (simp add: spec_membership_sq_sum_def spec_mean_def spec_std_def)
  have "spec_regp (reg_lambda pool2_regp) (pool_size pool2_regp) x_pair = Some (1 / 25)"
    by (simp add: spec_regp_def x_pair_size pool2_regp_fields upt_rec w q)
  then show ?thesis
    using forward_regp_x_pair[of "1 / 100"] by (simp add: pool2_regp_def)
qed

lemma regp_scalar_linear:
  fixes self :: "'m fuzzy_pooling_layer_regp_scheme"
  assumes "2 \<le> pool_size self" "pool_size self dvd height x" "pool_size self dvd width x"
    and "0 < batch_size x" "0 < channels x"
  shows "\<exists>K\<ge>0. \<forall>lam. \<exists>out.
           forward_regp (self\<lparr>reg_lambda := lam\<rparr>) x =
             Inr (self\<lparr>reg_lambda := lam, regp_loss := Some (Some (lam * K))\<rparr>, out)"
proof -
  let ?K = "(\<Sum>i\<leftarrow>range_step (height x) (pool_size self).
             \<Sum>j\<leftarrow>range_step (width x) (pool_size self).
               (\<Sum>b\<leftarrow>[0 ..< batch_size x]. \<Sum>c\<leftarrow>[0 ..< channels x].
                  membership_sq_sum (window x (pool_size self) i j b c)) /
               real (batch_size x * channels x)) /
            real (batch_size x * channels x)"
  have "0 \<le> ?K"
    by (intro divide_nonneg_nonneg sum_list_nonneg)
      (auto intro!: sum_list_nonneg divide_nonneg_nonneg simp: membership_sq_sum_nonneg)
  moreover have "\<exists>out. forward_regp (self\<lparr>reg_lambda := lam\<rparr>) x =
      Inr (self\<lparr>reg_lambda := lam, regp_loss := Some (Some (lam * ?K))\<rparr>, out)" for lam
    using forward_regp_value[of "self\<lparr>reg_lambda := lam\<rparr>" x] assms by simp
  ultimately show ?thesis by blast
qed

text \<open>
  C8, as amended. For an input with at least one batch item and one channel and with \<open>H\<close>
  and \<open>W\<close> divisible by a pool size of at least 2, the forward pass stores a finite
  regularization scalar; it is at least 0 for \<open>reg_lambda \<ge> 0\<close>, and with the input fixed
  it does not decrease when \<open>reg_lambda\<close> increases. So it does not decrease in the
  magnitude of \<open>reg_lambda\<close> as long as the larger magnitude belongs to a non-negative
  \<open>reg_lambda\<close>.
\<close>

theorem regp_scalar_nonneg_and_monotone:
  fixes self :: "'m fuzzy_pooling_layer_regp_scheme"
  assumes "2 \<le> pool_size self" "pool_size self dvd height x" "pool_size self dvd width x"
    and "0 < batch_size x" "0 < channels x"
  shows "\<exists>s1 s2 o1 o2 l1 l2.
           forward_regp (self\<lparr>reg_lambda := lam1\<rparr>) x = Inr (s1, o1) \<and>
           regp_loss s1 = Some (Some l1) \<and>
           forward_regp (self\<lparr>reg_lambda := lam2\<rparr>) x = Inr (s2, o2) \<and>
           regp_loss s2 = Some (Some l2) \<and>
           (0 \<le> lam1 \<longrightarrow> 0 \<le> l1) \<and>
           (lam1 \<le> lam2 \<longrightarrow> l1 \<le> l2) \<and>
           (0 \<le> lam2 \<and> \<bar>lam1\<bar> \<le> \<bar>lam2\<bar> \<longrightarrow> l1 \<le> l2)"
proof -
  obtain K where K: "0 \<le> K"
    "\<And>lam. \<exists>out. forward_regp (self\<lparr>reg_lambda := lam\<rparr>) x =
             Inr (self\<lparr>reg_lambda := lam, regp_loss := Some (Some (lam * K))\<rparr>, out)"
    using regp_scalar_linear[OF assms] by blast
  obtain o1 where 1: "forward_regp (self\<lparr>reg_lambda := lam1\<rparr>) x =
      Inr (self\<lparr>reg_lambda := lam1, regp_loss := Some (Some (lam1 * K))\<rparr>, o1)"
    using K(2) by blast
  obtain o2 where 2: "forward_regp (self\<lparr>reg_lambda := lam2\<rparr>) x =
      Inr (self\<lparr>reg_lambda := lam2, regp_loss := Some (Some (lam2 * K))\<rparr>, o2)"
    using K(2) by blast
  have a: "0 \<le> lam1 \<longrightarrow> 0 \<le> lam1 * K" using K(1) by simp
  have b: "lam1 \<le> lam2 \<longrightarrow> lam1 * K \<le> lam2 * K" using K(1) by (simp add: mult_right_mono)
  have c: "0 \<le> lam2 \<and> \<bar>lam1\<bar> \<le> \<bar>lam2\<bar> \<longrightarrow> lam1 * K \<le> lam2 * K"
    using K(1) by (auto intro!: mult_right_mono)
  show ?thesis
    using 1 2 a b c by (intro exI[of _ "self\<lparr>reg_lambda := lam1, regp_loss := Some (Some (lam1 * K))\<rparr>"]
        exI[of _ "self\<lparr>reg_lambda := lam2, regp_loss := Some (Some (lam2 * K))\<rparr>"]
        exI[of _ o1] exI[of _ o2] exI[of _ "lam1 * K"] exI[of _ "lam2 * K"]) simp
qed

theorem regp_scalar_nonneg_and_monotone_witness:
  "\<exists>s1 s2 o1 o2 l1 l2.
     forward_regp (pool2_regp\<lparr>reg_lambda := 1 / 100\<rparr>) x_pair = Inr (s1, o1) \<and>
     regp_loss s1 = Some (Some l1) \<and>
     forward_regp (pool2_regp\<lparr>reg_lambda := 1 / 50\<rparr>) x_pair = Inr (s2, o2) \<and>
     regp_loss s2 = Some (Some l2) \<and> 0 \<le> l1 \<and> l1 \<le> l2"
  using regp_scalar_nonneg_and_monotone[of pool2_regp x_pair "1 / 100" "1 / 50"]
  by (simp add: x_pair_size pool2_regp_fields)

lemma forward_regp_pool1:
  "\<exists>out. forward_regp (pool2_regp\<lparr>pool_size := 1\<rparr>) x_pair =
            Inr (pool2_regp\<lparr>pool_size := 1, regp_loss := Some None\<rparr>, out)"
proof -
  define self where "self = pool2_regp\<lparr>pool_size := 1\<rparr>"
  have s: "pool_size self = 1"
    by (simp add: self_def)
  obtain out where f: "forward self x_pair = Inr out"
    using forward_divisible[of self x_pair] by (simp add: x_pair_size s)
  have w: "gmf_slice (window x_pair 1 i j b c) = None" if "i < 2" "j < 2" for i j b c
    using that by (simp add: window_def x_pair_def gmf_slice_def std23_def mean23_def numel_def sum23_def)
  have r: "range_step 2 1 = [0, 1]"
    by (simp add: range_step_def upt_rec)
  have "mean_all [None, None] = None"
    by (simp add: mean_all_def)
  then have p: "regularization_penalty self 2 1 (\<lambda>b c. gmf_slice (window x_pair 1 i j b c)) = None"
    if "i < 2" "j < 2" for i j
    by (simp add: regularization_penalty_def w[OF that] upt_rec fmul_def del: One_nat_def)
  have "fold (\<lambda>i. fold (\<lambda>j a. py_add a
              (regularization_penalty self 2 1 (\<lambda>b c. gmf_slice (window x_pair 1 i j b c)))) [0, 1])
          [0, 1] (PyInt 0) = Scalar None"
    by (simp add: p fadd_def del: One_nat_def)
  then have "forward_regp self x_pair = Inr (self\<lparr>regp_loss := Some None\<rparr>, out)"
    by (simp add: forward_regp_split f x_pair_size s r del: One_nat_def)
  then show ?thesis by (auto simp: self_def)
qed

text \<open>
  The claim as stated fails for a negative \<open>reg_lambda\<close>: on \<open>x_pair\<close> the scalar is
  \<open>2 reg_lambda\<close>, so it is \<open>0\<close> for \<open>reg_lambda = 0\<close> and \<open>- 2\<close> for \<open>reg_lambda = - 1\<close>, of the
  larger magnitude. And with \<open>reg_lambda = 0.01\<close> and pool size 1 the scalar is NaN.
\<close>

theorem regp_scalar_decreases_for_negative_lambda:
  "(\<exists>o1 o2. forward_regp (pool2_regp\<lparr>reg_lambda := 0\<rparr>) x_pair =
               Inr (pool2_regp\<lparr>reg_lambda := 0, regp_loss := Some (Some 0)\<rparr>, o1) \<and>
             forward_regp (pool2_regp\<lparr>reg_lambda := - 1\<rparr>) x_pair =
               Inr (pool2_regp\<lparr>reg_lambda := - 1, regp_loss := Some (Some (- 2))\<rparr>, o2)) \<and>
   (\<exists>o3. forward_regp (pool2_regp\<lparr>pool_size := 1\<rparr>) x_pair =
            Inr (pool2_regp\<lparr>pool_size := 1, regp_loss := Some None\<rparr>, o3))"
  using forward_regp_x_pair[of 0] forward_regp_x_pair[of "- 1"] forward_regp_pool1 by simp

subsection \<open>The loss of the training step\<close>

lemma sum_list_pos:
  fixes f :: "'a \<Rightarrow> real"
  assumes "xs \<noteq> []" "\<forall>x\<in>set xs. 0 < f x"
  shows "0 < (\<Sum>x\<leftarrow>xs. f x)"
  using assms
proof (induction xs)
  case Nil
  then show ?case by simp
next
  case (Cons a xs)
  have "0 \<le> (\<Sum>x\<leftarrow>xs. f x)"
    using Cons.prems(2) by (intro sum_list_nonneg) (auto simp: less_imp_le)
  moreover have "0 < f a" using Cons.prems(2) by simp
  ultimately show ?case by simp
qed

lemma membership_sq_sum_pos:
  assumes "2 \<le> numel w"
  shows "0 < membership_sq_sum w"
proof -
  obtain mean s where ms: "mean23 w = Some mean" "std23 w = Some s"
    using std23_window[OF assms] by blast
  have "gmf_slice w = Some (map (map (\<lambda>x. gaussian_membership x mean (s + eps))) w)"
    using ms by (simp add: gmf_slice_def)
  then have e: "membership_sq_sum w = (\<Sum>x\<leftarrow>concat w. (gaussian_membership x mean (s + eps))\<^sup>2)"
    by (simp add: membership_sq_sum_def sum23_map_concat[of "\<lambda>x. (gaussian_membership x mean (s + eps))\<^sup>2", symmetric] comp_def)
  have "2 \<le> length (concat w)" using assms by (simp only: numel_concat)
  then have "concat w \<noteq> []" by (cases "concat w") simp_all
  moreover have "\<forall>v\<in>set (concat w). 0 < (gaussian_membership v mean (s + eps))\<^sup>2"
    using gaussian_membership_pos by (intro ballI zero_less_power)
  ultimately show ?thesis
    unfolding e by (rule sum_list_pos)
qed

lemma regp_loss_positive:
  fixes self :: "'m fuzzy_pooling_layer_regp_scheme"
  assumes "2 \<le> pool_size self" "pool_size self dvd height x" "pool_size self dvd width x"
    and "0 < batch_size x" "0 < channels x" "0 < height x" "0 < width x"
    and "0 < reg_lambda self"
  shows "\<exists>out r. forward_regp self x = Inr (self\<lparr>regp_loss := Some (Some r)\<rparr>, out) \<and> 0 < r"
proof -
  let ?p = "pool_size self"
  let ?n = "real (batch_size x * channels x)"
  let ?is = "range_step (height x) ?p"
  let ?js = "range_step (width x) ?p"
  let ?S = "\<lambda>i j. (\<Sum>b\<leftarrow>[0 ..< batch_size x]. \<Sum>c\<leftarrow>[0 ..< channels x].
                    membership_sq_sum (window x ?p i j b c))"
  have p: "0 < ?p" using assms(1) by simp
  have n: "0 < ?n" using assms(4,5) by simp
  have ne: "?is \<noteq> []" "?js \<noteq> []"
    using p assms(6,7) by (simp_all add: range_step_nonempty)
  have m: "0 < membership_sq_sum (window x ?p i j b c)" if "i \<in> set ?is" "j \<in> set ?js" for i j b c
  proof -
    have "2 * 2 \<le> ?p * ?p" using assms(1) by (intro mult_mono) simp_all
    then have "2 \<le> numel (window x ?p i j b c)"
      by (simp add: range_step_complete_window[OF p assms(2,3) that] numel_spec_window)
    then show ?thesis by (rule membership_sq_sum_pos)
  qed
  have S: "0 < ?S i j / ?n" if "i \<in> set ?is" "j \<in> set ?js" for i j
  proof -
    have "0 < (\<Sum>c\<leftarrow>[0 ..< channels x]. membership_sq_sum (window x ?p i j b c))" for b
      using assms(5) m[OF that] by (intro sum_list_pos) simp_all
    then have "0 < ?S i j"
      using assms(4) by (intro sum_list_pos) simp_all
    then show ?thesis using n by simp
  qed
  have "0 < (\<Sum>j\<leftarrow>?js. ?S i j / ?n)" if "i \<in> set ?is" for i
    using ne(2) S[OF that] by (intro sum_list_pos) simp_all
  then have "0 < (\<Sum>i\<leftarrow>?is. \<Sum>j\<leftarrow>?js. ?S i j / ?n)"
    using ne(1) by (intro sum_list_pos) simp_all
  then have "0 < reg_lambda self * ((\<Sum>i\<leftarrow>?is. \<Sum>j\<leftarrow>?js. ?S i j / ?n) / ?n)"
    using n assms(8) by (intro mult_pos_pos divide_pos_pos)
  then show ?thesis
    using forward_regp_value[OF assms(1-5)] by blast
qed

lemma relu_size:
  "batch_size (relu t) = batch_size t" "channels (relu t) = channels t"
  "height (relu t) = height t" "width (relu t) = width t"
  by (simp_all add: relu_def)

text \<open>
  On every batch whose feature map has at least one window, with a positive
  \<open>reg_lambda\<close>, the forward pass stores a positive scalar, and the loss of the training
  step is the value of the criterion, without it.
\<close>

lemma train_batch_leaves_out_regp:
  assumes "2 \<le> pool_size (fuzzy_pool model)"
    and "pool_size (fuzzy_pool model) dvd height (conv1 model images)"
    and "pool_size (fuzzy_pool model) dvd width (conv1 model images)"
    and "0 < batch_size (conv1 model images)" "0 < channels (conv1 model images)"
    and "0 < height (conv1 model images)" "0 < width (conv1 model images)"
    and "0 < reg_lambda (fuzzy_pool model)"
  shows "\<exists>model' outputs r.
           cnn_forward model images = Inr (model', outputs) \<and>
           get_regp_loss model' = Inr (Some r) \<and> 0 < r \<and>
           train_batch criterion optimizer model (images, labels) =
             Inr (optimizer model' (criterion outputs labels), criterion outputs labels)"
proof -
  obtain out r where f: "forward_regp (fuzzy_pool model) (relu (conv1 model images)) =
      Inr ((fuzzy_pool model)\<lparr>regp_loss := Some (Some r)\<rparr>, out)" and r: "0 < r"
    using regp_loss_positive[of "fuzzy_pool model" "relu (conv1 model images)"] assms
    by (auto simp: relu_size)
  have "cnn_forward model images =
      Inr (model\<lparr>fuzzy_pool := (fuzzy_pool model)\<lparr>regp_loss := Some (Some r)\<rparr>\<rparr>, fc1 model out)"
    by (simp add: cnn_forward_def f)
  then show ?thesis
    using r by (simp add: train_batch_def get_regp_loss_def Let_def)
qed

lemma relu_x_pair: "relu x_pair = x_pair"
  by (simp add: relu_def x_pair_def)

text \<open>
  C1. For a batch processed by \<^verbatim>\<open>train\<close> on a \<^verbatim>\<open>FuzzyCNNWithRegP\<close>, the loss that is
  backpropagated and stepped by the optimizer is to be the cross-entropy loss plus the
  regularization scalar of the same forward pass. \<^verbatim>\<open>train\<close> never reads the scalar: for
  every criterion, optimizer and labels, the forward pass on \<open>x_pair\<close> leaves the scalar
  \<open>0.02\<close> in the pooling layer, and the loss handed to the optimizer is the value of the
  criterion alone.
\<close>

theorem train_batch_loss_without_regp:
  "\<exists>model' outputs.
     cnn_forward cnn_example x_pair = Inr (model', outputs) \<and>
     get_regp_loss model' = Inr (Some (1 / 50)) \<and>
     train_batch criterion optimizer cnn_example (x_pair, labels) =
       Inr (optimizer model' (criterion outputs labels), criterion outputs labels)"
proof -
  obtain out where f: "forward_regp pool2_regp x_pair =
      Inr (pool2_regp\<lparr>regp_loss := Some (Some (1 / 50))\<rparr>, out)"
    using forward_regp_x_pair[of "1 / 100"] by (auto simp: pool2_regp_def)
  have c: "cnn_forward cnn_example x_pair =
      Inr (cnn_example\<lparr>fuzzy_pool := pool2_regp\<lparr>regp_loss := Some (Some (1 / 50))\<rparr>\<rparr>, out)"
    by (simp add: cnn_forward_def cnn_example_def relu_x_pair f)
  show ?thesis
    by (simp add: c train_batch_def get_regp_loss_def Let_def)
qed

end
